theory Spec2Isabelle
  imports Complex_Main "HOL-Library.Sublist" "HOL-Library.AList"
begin

section \<open>Strings\<close>

text \<open>
  A JavaScript string is modelled as the list of its characters (\<^typ>\<open>string\<close>). The
  characters the code tests for (slash, backslash, dot, colon, NUL, the ASCII letters and
  digits, line feed and carriage return) are the \<^typ>\<open>char\<close>s of the same code.
  \<open>prefix\<close> and \<open>suffix\<close> are \<open>String.prototype.startsWith\<close> and \<open>endsWith\<close>.
\<close>

text \<open>\<open>s.split(d)\<close> for a one-character separator: never the empty array.\<close>

fun splitOn :: "char \<Rightarrow> string \<Rightarrow> string list" where
  "splitOn d [] = [[]]"
| "splitOn d (c # cs) =
     (if c = d then [] # splitOn d cs
      else (case splitOn d cs of [] \<Rightarrow> [[c]] | p # ps \<Rightarrow> (c # p) # ps))"

text \<open>\<open>parts.join(sep)\<close>.\<close>

fun joinWith :: "string \<Rightarrow> string list \<Rightarrow> string" where
  "joinWith sep [] = []"
| "joinWith sep [p] = p"
| "joinWith sep (p # q # ps) = p @ sep @ joinWith sep (q # ps)"

section \<open>AssetPathValidator\<close>

text \<open>\<open>.replace(/\\/g, '/')\<close>: every backslash becomes a slash.\<close>

definition backslashesToSlashes :: "string \<Rightarrow> string" where
  "backslashesToSlashes s = map (\<lambda>c. if c = CHR 0x5C then CHR ''/'' else c) s"

text \<open>\<open>.replace(/^\.\/?/, '')\<close>: a leading dot goes, and a slash right after it too.\<close>

fun stripLeadingDot :: "string \<Rightarrow> string" where
  "stripLeadingDot [] = []"
| "stripLeadingDot (c # cs) =
     (if c = CHR ''.'' then
        (case cs of [] \<Rightarrow> [] | d # ds \<Rightarrow> if d = CHR ''/'' then ds else cs)
      else c # cs)"

text \<open>\<open>.replace(/^\/+/, '')\<close>.\<close>

definition stripLeadingSlashes :: "string \<Rightarrow> string" where
  "stripLeadingSlashes s = dropWhile (\<lambda>c. c = CHR ''/'') s"

text \<open>
  The loop of \<open>normalizePath\<close> over the parts: \<open>safe\<close> is the array \<open>safeParts\<close>;
  \<open>pop\<close> on the empty array does nothing.
\<close>

fun collectSafeParts :: "string list \<Rightarrow> string list \<Rightarrow> string list" where
  "collectSafeParts [] safe = safe"
| "collectSafeParts (part # parts) safe =
     (if part = [] \<or> part = ''.'' then collectSafeParts parts safe
      else if part = ''..'' then collectSafeParts parts (butlast safe)
      else collectSafeParts parts (safe @ [part]))"

text \<open>What \<open>safeParts\<close> holds: parts that are not empty, not a dot and not two dots, without
  slash and backslash.\<close>

definition cleanParts :: "string list \<Rightarrow> bool" where
  "cleanParts ps =
     (\<forall>p\<in>set ps. p \<noteq> [] \<and> p \<noteq> ''.'' \<and> p \<noteq> ''..'' \<and> CHR ''/'' \<notin> set p
        \<and> CHR 0x5C \<notin> set p)"

definition normalizePath :: "string \<Rightarrow> string" where
  "normalizePath input =
     (let normalized = stripLeadingSlashes (stripLeadingDot (backslashesToSlashes input));
          parts = splitOn (CHR ''/'') normalized
      in joinWith ''/'' (collectSafeParts parts []))"

definition pathHasTraversal :: "string \<Rightarrow> bool" where
  "pathHasTraversal v = (''..'' \<in> set (splitOn (CHR ''/'') v))"

text \<open>\<open>/^[A-Za-z]:/.test(input)\<close>.\<close>

definition isAsciiLetter :: "char \<Rightarrow> bool" where
  "isAsciiLetter c =
     (let n = (of_char c :: nat) in (65 \<le> n \<and> n \<le> 90) \<or> (97 \<le> n \<and> n \<le> 122))"

fun hasDrivePrefix :: "string \<Rightarrow> bool" where
  "hasDrivePrefix (c # d # _) = (isAsciiLetter c \<and> d = CHR '':'')"
| "hasDrivePrefix _ = False"

definition isSafeRelativePath :: "string \<Rightarrow> bool" where
  "isSafeRelativePath input =
     (if input = [] then False
      else if CHR 0x00 \<in> set input then False
      else if CHR 0x5C \<in> set input then False
      else if prefix ''/'' input then False
      else if hasDrivePrefix input then False
      else if pathHasTraversal input then False
      else normalizePath input \<noteq> [])"

text \<open>
  \<open>safeJoinUnder\<close> of the directory writer. \<open>path.resolve\<close> and \<open>path.sep\<close> belong to the
  platform, not to the repository: they are the parameters \<open>resolve\<close> and \<open>sep\<close>.
  \<open>None\<close> is the source's \<open>null\<close>.
\<close>

definition safeJoinUnder ::
  "(string \<Rightarrow> string \<Rightarrow> string) \<Rightarrow> string \<Rightarrow> string \<Rightarrow> string \<Rightarrow> string option" where
  "safeJoinUnder resolve sep rootDir relativePath =
     (let target = resolve rootDir relativePath;
          rootWithSep = (if suffix sep rootDir then rootDir else rootDir @ sep)
      in if target = rootDir \<or> prefix rootWithSep target then Some target else None)"

text \<open>
  The asset loop of \<open>writeDataset\<close>: \<open>assetData\<close> is the map from asset key to bytes in
  iteration order; the result lists, in order, every asset file that is written, as the
  pair of its key and the path given to \<open>writeFile\<close>. A key that fails
  \<open>isSafeRelativePath\<close> or \<open>safeJoinUnder\<close> is skipped with a warning.
\<close>

fun writeAssets ::
  "(string \<Rightarrow> string \<Rightarrow> string) \<Rightarrow> string \<Rightarrow> string \<Rightarrow> (string \<times> 'd) list
     \<Rightarrow> (string \<times> string) list" where
  "writeAssets resolve sep assetsDir [] = []"
| "writeAssets resolve sep assetsDir ((assetKey, content) # rest) =
     (if \<not> isSafeRelativePath assetKey then writeAssets resolve sep assetsDir rest
      else (case safeJoinUnder resolve sep assetsDir assetKey of
              None \<Rightarrow> writeAssets resolve sep assetsDir rest
            | Some assetPath \<Rightarrow> (assetKey, assetPath) # writeAssets resolve sep assetsDir rest))"

section \<open>GraphConverter\<close>

text \<open>
  The raw graph, with the fields the traversal, the message list and the timestamps
  read. A field that may be absent, \<open>null\<close> or \<open>undefined\<close> is an \<open>option\<close>. Numbers are
  exact reals. The mapping object is an association list: \<^const>\<open>map_of\<close> is the property
  lookup \<open>nodes[key]\<close>, and the number of keys is the number of distinct keys.
  Message content (blocks, details, variants, asset pointers), and with it the title and
  the snippet, is outside this development: a message is carried with its identity, role,
  time and recipient.
\<close>

record RawMessage =
  raw_id :: "string option"
  author_role :: "string option"
  raw_create_time :: "real option"
  raw_update_time :: "real option"
  raw_recipient :: "string option"

record RawNode =
  node_id :: string
  parent :: "string option"
  children :: "string list option"
  message :: "RawMessage option"

record RawConversation =
  conversation_id :: "string option"
  current_node :: "string option"
  mapping :: "(string \<times> RawNode) list option"
  create_time :: "real option"
  update_time :: "real option"

datatype Role = User | Assistant | System | Tool

record Message =
  msg_id :: string
  role :: Role
  time :: "real option"
  recipient :: "string option"

record Conversation =
  conv_id :: string
  conv_create_time :: "real option"
  conv_update_time :: "real option"
  last_message_time :: real
  messages :: "Message list"

record SlimConversionResult =
  conversation :: Conversation
  mappingNodeCount :: nat

text \<open>\<open>a ?? b\<close> on an optional value.\<close>

definition orElse :: "'a option \<Rightarrow> 'a \<Rightarrow> 'a" where
  "orElse v d = (case v of None \<Rightarrow> d | Some x \<Rightarrow> x)"

definition normalizeMs :: "real option \<Rightarrow> real" where
  "normalizeMs v =
     (case v of
        None \<Rightarrow> 0
      | Some x \<Rightarrow> if x = 0 then 0 else if x > 10000000000 then x else x * 1000)"

definition normalizeOptionalMs :: "real option \<Rightarrow> real option" where
  "normalizeOptionalMs v =
     (case v of
        None \<Rightarrow> None
      | Some x \<Rightarrow> if x = 0 then None else Some (normalizeMs (Some x)))"

text \<open>
  \<open>cursor.parent ? nodes[cursor.parent] : undefined\<close>: an absent or empty parent
  reference, and one whose key the mapping lacks, both give \<open>undefined\<close>.
\<close>

definition parentOf :: "(string \<times> RawNode) list \<Rightarrow> RawNode \<Rightarrow> RawNode option" where
  "parentOf nodes cursor =
     (case parent cursor of
        None \<Rightarrow> None
      | Some p \<Rightarrow> if p = [] then None else map_of nodes p)"

text \<open>
  The \<open>while\<close> loop of \<open>convertRawConversation\<close>: \<open>visited\<close> holds the node ids seen,
  the result is \<open>path\<close> before it is reversed (the current node first).
\<close>

function collectPath ::
  "(string \<times> RawNode) list \<Rightarrow> string list \<Rightarrow> RawNode option \<Rightarrow> RawNode list" where
  "collectPath nodes visited cursor =
     (case cursor of
        None \<Rightarrow> []
      | Some c \<Rightarrow>
          if node_id c \<in> set visited then []
          else c # collectPath nodes (node_id c # visited) (parentOf nodes c))"
  by pat_completeness auto

termination collectPath
proof (relation "measure (\<lambda>(nodes, visited, cursor).
    card (node_id ` (snd ` set nodes \<union> set_option cursor) - set visited))")
  show "wf (measure (\<lambda>(nodes, visited, cursor).
    card (node_id ` (snd ` set nodes \<union> set_option cursor) - set visited)))"
    by simp
next
  fix nodes :: "(string \<times> RawNode) list" and visited :: "string list"
    and cursor :: "RawNode option" and c :: RawNode
  assume c: "cursor = Some c" and fresh: "node_id c \<notin> set visited"
  let ?all = "snd ` set nodes"
  have sub: "set_option (parentOf nodes c) \<subseteq> ?all"
    by (auto simp: parentOf_def split: option.splits if_splits dest!: map_of_SomeD
        intro: image_eqI [where x = "(a, b)" for a b])
  have "node_id ` (?all \<union> set_option (parentOf nodes c)) - set (node_id c # visited)
        \<subset> node_id ` (?all \<union> set_option cursor) - set visited"
    using sub c fresh by auto
  then have "card (node_id ` (?all \<union> set_option (parentOf nodes c)) - set (node_id c # visited))
        < card (node_id ` (?all \<union> set_option cursor) - set visited)"
    by (intro psubset_card_mono) auto
  then show "((nodes, node_id c # visited, parentOf nodes c), (nodes, visited, cursor))
        \<in> measure (\<lambda>(nodes, visited, cursor).
             card (node_id ` (snd ` set nodes \<union> set_option cursor) - set visited))"
    by simp
qed

text \<open>
  \<open>transformMessage\<close>: \<open>None\<close> (the source's \<open>null\<close>) for a node without a message. An
  unrecognised or absent author role becomes \<open>user\<close>; \<open>raw.id || node.id\<close> falls back to
  the node id when the message id is absent or empty.
\<close>

definition roleOf :: "string option \<Rightarrow> Role" where
  "roleOf r =
     (let s = orElse r ''user''
      in if s = ''assistant'' then Assistant
         else if s = ''user'' then User
         else if s = ''system'' then System
         else if s = ''tool'' then Tool
         else User)"

definition transformMessage :: "RawNode \<Rightarrow> Message option" where
  "transformMessage node =
     (case message node of
        None \<Rightarrow> None
      | Some raw \<Rightarrow>
          Some \<lparr> msg_id = (case raw_id raw of None \<Rightarrow> node_id node
                            | Some i \<Rightarrow> if i = [] then node_id node else i),
                 role = roleOf (author_role raw),
                 time = normalizeOptionalMs
                          (case raw_create_time raw of Some t \<Rightarrow> Some t
                           | None \<Rightarrow> raw_update_time raw),
                 recipient = raw_recipient raw \<rparr>)"

text \<open>
  One turn of the \<open>for\<close> loop over the path: the state is the pair of \<open>messages\<close> and
  \<open>lastMessageTs\<close>. \<open>msg.time && msg.time > lastMessageTs\<close> needs a time that is present
  and not zero.
\<close>

definition convertStep :: "Message list \<times> real \<Rightarrow> RawNode \<Rightarrow> Message list \<times> real" where
  "convertStep st node =
     (case transformMessage node of
        None \<Rightarrow> st
      | Some msg \<Rightarrow>
          (fst st @ [msg],
           (case time msg of
              None \<Rightarrow> snd st
            | Some t \<Rightarrow> if t \<noteq> 0 \<and> t > snd st then t else snd st)))"

definition convertRawConversation :: "RawConversation \<Rightarrow> SlimConversionResult option" where
  "convertRawConversation raw =
     (case mapping raw of
        None \<Rightarrow> None
      | Some nodes \<Rightarrow>
         (case current_node raw of
            None \<Rightarrow> None
          | Some cur \<Rightarrow>
             if cur = [] then None
             else
               let path = rev (collectPath nodes [] (map_of nodes cur));
                   start = orElse (update_time raw) (orElse (create_time raw) 0);
                   done = foldl convertStep ([], start) path;
                   msgs = fst done;
                   lastMessageTs = snd done
               in if msgs = [] then None
                  else Some \<lparr> conversation =
                                \<lparr> conv_id = orElse (conversation_id raw) (msg_id (hd msgs)),
                                  conv_create_time = normalizeOptionalMs (create_time raw),
                                  conv_update_time = normalizeOptionalMs (update_time raw),
                                  last_message_time = normalizeMs (Some lastMessageTs),
                                  messages = msgs \<rparr>,
                              mappingNodeCount = length (remdups (map fst nodes)) \<rparr>))"

declare collectPath.simps [simp del]

text \<open>
  Predicates for stating the traversal's properties. \<open>linkedByParent\<close>: each node of a
  path but the first is what the parent link of the node before it gives. \<open>isRoot\<close>: the
  node has no parent reference. \<open>validChain\<close>: a chain from a node to a root in which
  every parent reference is present in the mapping.
\<close>

fun linkedByParent :: "(string \<times> RawNode) list \<Rightarrow> RawNode list \<Rightarrow> bool" where
  "linkedByParent nodes (c # d # rest) =
     (parentOf nodes c = Some d \<and> linkedByParent nodes (d # rest))"
| "linkedByParent nodes _ = True"

definition isRoot :: "RawNode \<Rightarrow> bool" where
  "isRoot n = (parent n = None \<or> parent n = Some [])"

fun validChain :: "(string \<times> RawNode) list \<Rightarrow> RawNode list \<Rightarrow> bool" where
  "validChain nodes [] = False"
| "validChain nodes [r] = isRoot r"
| "validChain nodes (c # d # rest) =
     (parentOf nodes c = Some d \<and> validChain nodes (d # rest))"

text \<open>
  The last message time as C7 words it: the maximum, in milliseconds, of the graph's
  stated time and of the time of every message on the path, each normalised on its own.
\<close>

definition statedLastMessageTime :: "RawConversation \<Rightarrow> real" where
  "statedLastMessageTime raw =
     (let nodes = orElse (mapping raw) [];
          path = collectPath nodes [] (map_of nodes (orElse (current_node raw) []));
          rawTimes = List.map_filter
                       (\<lambda>n. case message n of
                                None \<Rightarrow> None
                              | Some m \<Rightarrow>
                                  (case raw_create_time m of Some t \<Rightarrow> Some t
                                   | None \<Rightarrow> raw_update_time m)) path
      in foldl max (normalizeMs (Some (orElse (update_time raw) (orElse (create_time raw) 0))))
           (map (\<lambda>t. normalizeMs (Some t)) rawTimes))"

text \<open>Graphs for the examples.\<close>

definition exampleMessage :: "string \<Rightarrow> string \<Rightarrow> real \<Rightarrow> RawMessage" where
  "exampleMessage i r t =
     \<lparr> raw_id = Some i, author_role = Some r, raw_create_time = Some t,
       raw_update_time = None, raw_recipient = None \<rparr>"

definition exampleNode :: "string \<Rightarrow> string option \<Rightarrow> RawMessage option \<Rightarrow> RawNode" where
  "exampleNode i p m = \<lparr> node_id = i, parent = p, children = None, message = m \<rparr>"

definition exampleGraph ::
  "string \<Rightarrow> string \<Rightarrow> real option \<Rightarrow> RawNode list \<Rightarrow> RawConversation" where
  "exampleGraph i cur updated ns =
     \<lparr> conversation_id = Some i, current_node = Some cur,
       mapping = Some (map (\<lambda>n. (node_id n, n)) ns),
       create_time = None, update_time = updated \<rparr>"

text \<open>
  \<open>truncatedPath\<close>: the path the traversal is to give from the node \<open>start\<close>. It begins
  with \<open>start\<close>, follows the parent links, holds no node id twice, and ends at the first
  node whose parent reference is absent or missing from the mapping, or whose parent's id
  is already on the path.
\<close>

definition truncatedPath :: "(string \<times> RawNode) list \<Rightarrow> RawNode \<Rightarrow> RawNode list \<Rightarrow> bool" where
  "truncatedPath nodes start ps =
     (ps \<noteq> [] \<and> hd ps = start \<and> linkedByParent nodes ps \<and> distinct (map node_id ps)
      \<and> (case parentOf nodes (last ps) of
            None \<Rightarrow> True
          | Some q \<Rightarrow> node_id q \<in> node_id ` set ps))"

text \<open>
  Two malformed graphs for the examples: \<open>n2\<close> under \<open>n1\<close>, whose parent \<open>gone\<close> is not in
  the mapping; and \<open>a\<close> and \<open>b\<close>, each the parent of the other.
\<close>

definition exampleOrphan :: "RawNode list" where
  "exampleOrphan =
     [exampleNode ''n1'' (Some ''gone'') (Some (exampleMessage ''m1'' ''user'' 1)),
      exampleNode ''n2'' (Some ''n1'') (Some (exampleMessage ''m2'' ''assistant'' 2))]"

definition exampleCycle :: "RawNode list" where
  "exampleCycle =
     [exampleNode ''a'' (Some ''b'') (Some (exampleMessage ''ma'' ''user'' 1)),
      exampleNode ''b'' (Some ''a'') (Some (exampleMessage ''mb'' ''assistant'' 2))]"

definition keyed :: "RawNode list \<Rightarrow> (string \<times> RawNode) list" where
  "keyed ns = map (\<lambda>n. (node_id n, n)) ns"

section \<open>DatasetReconciler\<close>

text \<open>
  The summary and the payload, with the fields reconciliation reads. A JavaScript \<open>Map\<close>
  keyed by conversation id is an association list in insertion order: \<^const>\<open>map_of\<close> is
  \<open>get\<close>, \<^const>\<open>AList.update\<close> is \<open>set\<close> (an existing key keeps its place, a new
  one goes last), and the length is \<open>size\<close>.
\<close>

record ConversationSummary =
  sum_id :: string
  sum_last_message_time :: real
  mapping_node_count :: "nat option"

record ConversationPayload =
  summary :: ConversationSummary
  payload_conversation :: Conversation
  payload_mappingNodeCount :: "nat option"
  importOrder :: nat

type_synonym PayloadMap = "(string \<times> ConversationPayload) list"

definition shouldReplace :: "ConversationPayload \<Rightarrow> ConversationPayload \<Rightarrow> bool" where
  "shouldReplace current incoming =
     (if sum_last_message_time (summary incoming) > sum_last_message_time (summary current) then True
      else if sum_last_message_time (summary incoming) < sum_last_message_time (summary current) then False
      else if orElse (payload_mappingNodeCount incoming) 0 > orElse (payload_mappingNodeCount current) 0 then True
      else if orElse (payload_mappingNodeCount incoming) 0 < orElse (payload_mappingNodeCount current) 0 then False
      else importOrder incoming > importOrder current)"

definition isNewerSummary :: "ConversationSummary \<Rightarrow> ConversationSummary option \<Rightarrow> bool" where
  "isNewerSummary incoming existing =
     (case existing of
        None \<Rightarrow> True
      | Some e \<Rightarrow>
          if sum_last_message_time incoming > sum_last_message_time e then True
          else if sum_last_message_time incoming = sum_last_message_time e
                  \<and> orElse (mapping_node_count incoming) 0 > orElse (mapping_node_count e) 0
          then True
          else False)"

text \<open>
  The upsert of one payload into \<open>merged\<close>, as \<open>importDatasets\<close> (modes upsert and
  replace) and \<open>parseExportZips\<close> both write it:
  \<open>if (!existing || shouldReplace(existing, payload)) merged.set(id, payload)\<close>.
\<close>

definition upsertPayload :: "PayloadMap \<Rightarrow> ConversationPayload \<Rightarrow> PayloadMap" where
  "upsertPayload merged payload =
     (let cid = conv_id (payload_conversation payload)
      in case map_of merged cid of
           None \<Rightarrow> AList.update cid payload merged
         | Some existing \<Rightarrow>
             if shouldReplace existing payload then AList.update cid payload merged
             else merged)"

text \<open>\<open>new Set(xs)\<close>: the distinct elements, each at its first occurrence.\<close>

definition setFromList :: "'a list \<Rightarrow> 'a list" where
  "setFromList xs = rev (remdups (rev xs))"

text \<open>\<open>s.includes(needle)\<close>.\<close>

fun includesStr :: "string \<Rightarrow> string \<Rightarrow> bool" where
  "includesStr [] needle = (needle = [])"
| "includesStr (c # cs) needle = (prefix needle (c # cs) \<or> includesStr cs needle)"

definition isSafeConversationId :: "string \<Rightarrow> bool" where
  "isSafeConversationId i =
     (i \<noteq> [] \<and> \<not> includesStr i ''/'' \<and> \<not> includesStr i [CHR 0x5C]
      \<and> \<not> includesStr i [CHR 0x00] \<and> \<not> includesStr i ''..'')"

text \<open>A payload for the examples: id, last message time, node count and import order.\<close>

definition examplePayload :: "string \<Rightarrow> real \<Rightarrow> nat \<Rightarrow> nat \<Rightarrow> ConversationPayload" where
  "examplePayload i t n order =
     \<lparr> summary = \<lparr> sum_id = i, sum_last_message_time = t, mapping_node_count = Some n \<rparr>,
       payload_conversation = \<lparr> conv_id = i, conv_create_time = None, conv_update_time = None,
                                last_message_time = t, messages = [] \<rparr>,
       payload_mappingNodeCount = Some n,
       importOrder = order \<rparr>"

subsection \<open>Clone identifiers\<close>

text \<open>
  Suffix numbers are natural numbers: \<open>parseDigits\<close> is \<open>Number\<close> on a string of digits,
  \<open>digitsOfNat\<close> the decimal text of a number in a template literal. The numbers of the
  code are doubles, which agree with the natural numbers below \<open>2^53\<close>. From there on
  \<open>Number\<close> rounds, \<open>nextSuffix += 1\<close> can leave the value as it is, and from \<open>10^21\<close> on the
  template literal prints an exponent; the definitions follow the code for suffixes below
  \<open>2^53\<close> only.
\<close>

definition isDigit :: "char \<Rightarrow> bool" where
  "isDigit c = (let n = (of_char c :: nat) in 48 \<le> n \<and> n \<le> 57)"

definition digitValue :: "char \<Rightarrow> nat" where
  "digitValue c = of_char c - 48"

definition parseDigits :: "string \<Rightarrow> nat" where
  "parseDigits ds = foldl (\<lambda>acc c. 10 * acc + digitValue c) 0 ds"

definition digitChar :: "nat \<Rightarrow> char" where
  "digitChar d = ''0123456789'' ! d"

fun digitsOfNat :: "nat \<Rightarrow> string" where
  "digitsOfNat n =
     (if n < 10 then [digitChar n]
      else digitsOfNat (n div 10) @ [digitChar (n mod 10)])"

declare digitsOfNat.simps [simp del]

text \<open>
  In a regular expression without the \<open>s\<close> flag the dot matches none of the line
  terminators: line feed, carriage return, and the separators U+2028 and U+2029. The last
  two are no \<^typ>\<open>char\<close>: in a conversation id a character beyond the 8 bits of a
  \<^typ>\<open>char\<close> stands by the bytes of its UTF-8 encoding, \<open>E2 80 A8\<close> and \<open>E2 80 A9\<close> for the
  two separators.
\<close>

definition hasLineTerminator :: "string \<Rightarrow> bool" where
  "hasLineTerminator s =
     (includesStr s [CHR 0x0A] \<or> includesStr s [CHR 0x0D]
      \<or> includesStr s [CHR 0xE2, CHR 0x80, CHR 0xA8]
      \<or> includesStr s [CHR 0xE2, CHR 0x80, CHR 0xA9])"

text \<open>
  \<open>splitCloneId\<close> (and \<open>splitCloneIdentifier\<close>, the same code in the browser):
  \<open>id.match(/^(.*)_v(\d+)$/)\<close>. The digits of a match are the whole run of digits that
  ends the id, since the character before them must be \<open>v\<close>; the base is what stands
  before \<open>_v\<close>, and the dot has to match all of it.
\<close>

definition splitCloneId :: "string \<Rightarrow> string \<times> nat" where
  "splitCloneId i =
     (let ds = rev (takeWhile isDigit (rev i));
          front = take (length i - length ds) i;
          base = take (length front - 2) front
      in if ds \<noteq> [] \<and> suffix ''_v'' front \<and> \<not> hasLineTerminator base
         then (base, parseDigits ds)
         else (i, 1))"

type_synonym CloneTracker = "string \<Rightarrow> nat option"

definition trackSuffix :: "CloneTracker \<Rightarrow> string \<Rightarrow> CloneTracker" where
  "trackSuffix tracker i =
     (let (base, suffix) = splitCloneId i;
          current = orElse (tracker base) 0
      in if suffix > current then tracker(base \<mapsto> suffix) else tracker)"

definition buildCloneTracker :: "string list \<Rightarrow> CloneTracker" where
  "buildCloneTracker ids = foldl trackSuffix Map.empty ids"

definition cloneCandidate :: "string \<Rightarrow> nat \<Rightarrow> string" where
  "cloneCandidate base n = base @ ''_v'' @ digitsOfNat n"

lemma parseDigits_snoc: "parseDigits (ds @ [c]) = 10 * parseDigits ds + digitValue c"
  by (simp add: parseDigits_def)

lemma digitChar_digit: "d < 10 \<Longrightarrow> isDigit (digitChar d) \<and> digitValue (digitChar d) = d"
proof -
  assume "d < 10"
  then have "d \<in> {0, 1, 2, 3, 4, 5, 6, 7, 8, 9}" by auto
  then show ?thesis
    by (auto simp: isDigit_def digitValue_def digitChar_def)
qed

lemma digitsOfNat_digits: "list_all isDigit (digitsOfNat n)"
proof (induction n rule: digitsOfNat.induct)
  case (1 n)
  show ?case
  proof (cases "n < 10")
    case True
    then show ?thesis using digitChar_digit [of n] by (subst digitsOfNat.simps) simp
  next
    case False
    then show ?thesis using 1 digitChar_digit [of "n mod 10"] by (subst digitsOfNat.simps) simp
  qed
qed

lemma digitsOfNat_nonempty: "digitsOfNat n \<noteq> []"
  by (subst digitsOfNat.simps) simp

lemma parseDigits_digitsOfNat: "parseDigits (digitsOfNat n) = n"
proof (induction n rule: digitsOfNat.induct)
  case (1 n)
  show ?case
  proof (cases "n < 10")
    case True
    then show ?thesis
      using digitChar_digit [of n] by (subst digitsOfNat.simps) (simp add: parseDigits_def)
  next
    case False
    then show ?thesis using 1 digitChar_digit [of "n mod 10"]
      by (subst digitsOfNat.simps) (simp add: parseDigits_snoc)
  qed
qed

lemma cloneCandidate_inj: "cloneCandidate base m = cloneCandidate base n \<Longrightarrow> m = n"
  by (metis cloneCandidate_def same_append_eq parseDigits_digitsOfNat)

text \<open>
  The \<open>while (merged.has(candidate))\<close> loop of \<open>ensureClonePayloadId\<close>; \<open>used\<close> lists the
  keys of \<open>merged\<close> (the set \<open>usedIds\<close> in the browser). Over the natural numbers it ends,
  because \<open>used\<close> is finite and different numbers give different candidates; the loop of
  the code can stay at \<open>2^53\<close>, outside the range of this development.
\<close>

function nextFreeSuffix :: "string \<Rightarrow> string list \<Rightarrow> nat \<Rightarrow> nat" where
  "nextFreeSuffix base used n =
     (if cloneCandidate base n \<in> set used then nextFreeSuffix base used (Suc n) else n)"
  by pat_completeness auto

termination nextFreeSuffix
proof (relation "measure (\<lambda>(base, used, n). card {m. n \<le> m \<and> cloneCandidate base m \<in> set used})")
  show "wf (measure (\<lambda>(base, used, n). card {m. n \<le> m \<and> cloneCandidate base m \<in> set used}))"
    by simp
next
  fix base :: string and used :: "string list" and n :: nat
  assume hit: "cloneCandidate base n \<in> set used"
  have "inj (cloneCandidate base)"
    by (rule injI) (rule cloneCandidate_inj)
  then have "finite (cloneCandidate base -` set used)"
    by (intro finite_vimageI) simp_all
  then have fin: "finite {m. n \<le> m \<and> cloneCandidate base m \<in> set used}"
    by (rule rev_finite_subset) auto
  have "n \<in> {m. n \<le> m \<and> cloneCandidate base m \<in> set used}"
    and "n \<notin> {m. Suc n \<le> m \<and> cloneCandidate base m \<in> set used}"
    and "{m. Suc n \<le> m \<and> cloneCandidate base m \<in> set used}
        \<subseteq> {m. n \<le> m \<and> cloneCandidate base m \<in> set used}"
    using hit by auto
  then have "{m. Suc n \<le> m \<and> cloneCandidate base m \<in> set used}
        \<subset> {m. n \<le> m \<and> cloneCandidate base m \<in> set used}"
    by blast
  then have "card {m. Suc n \<le> m \<and> cloneCandidate base m \<in> set used}
        < card {m. n \<le> m \<and> cloneCandidate base m \<in> set used}"
    using fin by (intro psubset_card_mono)
  then show "((base, used, Suc n), (base, used, n))
        \<in> measure (\<lambda>(base, used, n). card {m. n \<le> m \<and> cloneCandidate base m \<in> set used})"
    by simp
qed

declare nextFreeSuffix.simps [simp del]

definition clonePayloadWithId :: "ConversationPayload \<Rightarrow> string \<Rightarrow> ConversationPayload" where
  "clonePayloadWithId payload newId =
     payload \<lparr> payload_conversation := (payload_conversation payload) \<lparr> conv_id := newId \<rparr>,
               summary := (summary payload) \<lparr> sum_id := newId \<rparr> \<rparr>"

text \<open>
  \<open>ensureClonePayloadId\<close> of the directory importer. The tracker is updated in place in
  the source; here the updated tracker is returned with the payload.
\<close>

definition ensureClonePayloadId ::
  "ConversationPayload \<Rightarrow> PayloadMap \<Rightarrow> CloneTracker \<Rightarrow> ConversationPayload \<times> CloneTracker" where
  "ensureClonePayloadId payload merged tracker =
     (let originalId = conv_id (payload_conversation payload);
          (base, suffix) = splitCloneId originalId
      in if map_of merged originalId = None
         then (payload,
               if suffix > orElse (tracker base) 0 then tracker(base \<mapsto> suffix) else tracker)
         else
           let nextSuffix =
                 nextFreeSuffix base (map fst merged) (max (orElse (tracker base) suffix) suffix + 1)
           in (clonePayloadWithId payload (cloneCandidate base nextSuffix),
               tracker(base \<mapsto> nextSuffix)))"

text \<open>
  \<open>ensureClonePayloadIdForLocal\<close> of the browser: the same steps over the set \<open>usedIds\<close>,
  which it extends; the result carries the payload, \<open>usedIds\<close> and the tracker.
\<close>

definition ensureClonePayloadIdForLocal ::
  "ConversationPayload \<Rightarrow> string list \<Rightarrow> CloneTracker
     \<Rightarrow> ConversationPayload \<times> string list \<times> CloneTracker" where
  "ensureClonePayloadIdForLocal payload usedIds tracker =
     (let originalId = conv_id (payload_conversation payload);
          (base, suffix) = splitCloneId originalId
      in if originalId \<notin> set usedIds
         then (payload, usedIds @ [originalId],
               if suffix > orElse (tracker base) 0 then tracker(base \<mapsto> suffix) else tracker)
         else
           let nextSuffix =
                 nextFreeSuffix base usedIds (max (orElse (tracker base) suffix) suffix + 1);
               candidate = cloneCandidate base nextSuffix
           in (clonePayloadWithId payload candidate, usedIds @ [candidate],
               tracker(base \<mapsto> nextSuffix)))"

text \<open>
  One clone step of \<open>importDatasets\<close>:
  \<open>payload = ensureClonePayloadId(payload, merged, cloneTracker); merged.set(payload.conversation.id, payload)\<close>.
\<close>

definition clonePayload ::
  "PayloadMap \<times> CloneTracker \<Rightarrow> ConversationPayload \<Rightarrow> PayloadMap \<times> CloneTracker" where
  "clonePayload st payload =
     (let (payload', tracker') = ensureClonePayloadId payload (fst st) (snd st)
      in (AList.update (conv_id (payload_conversation payload')) payload' (fst st), tracker'))"

subsection \<open>Clone runs and the words of the clone rule\<close>

text \<open>
  The clone steps of one run of \<open>importDatasets\<close>: the tracker is built from the keys of
  \<open>merged\<close>, then every payload goes through \<open>clonePayload\<close>. In the browser
  \<open>ensureClonePayloadIdForLocal\<close> carries the ids and the tracker from payload to payload.
\<close>

definition cloneRun :: "PayloadMap \<Rightarrow> ConversationPayload list \<Rightarrow> PayloadMap \<times> CloneTracker" where
  "cloneRun m0 payloads = foldl clonePayload (m0, buildCloneTracker (map fst m0)) payloads"

definition localStep ::
  "string list \<times> CloneTracker \<Rightarrow> ConversationPayload \<Rightarrow> string list \<times> CloneTracker" where
  "localStep st payload = snd (ensureClonePayloadIdForLocal payload (fst st) (snd st))"

abbreviation payloadId :: "ConversationPayload \<Rightarrow> string" where
  "payloadId p \<equiv> conv_id (payload_conversation p)"

text \<open>
  The rule in the words of the specification, independent of \<open>splitCloneId\<close>: the id with
  a trailing \<open>_v\<close> and digits stripped, the version an id carries (1 without such a
  suffix), and the highest version among the keys with a given base.
\<close>

definition stripVersionSuffix :: "string \<Rightarrow> string" where
  "stripVersionSuffix i =
     (let ds = rev (takeWhile isDigit (rev i));
          front = take (length i - length ds) i
      in if ds \<noteq> [] \<and> suffix ''_v'' front then take (length front - 2) front else i)"

definition versionOf :: "string \<Rightarrow> nat" where
  "versionOf i =
     (let ds = rev (takeWhile isDigit (rev i));
          front = take (length i - length ds) i
      in if ds \<noteq> [] \<and> suffix ''_v'' front then parseDigits ds else 1)"

definition statedHighestSuffix :: "string list \<Rightarrow> string \<Rightarrow> nat" where
  "statedHighestSuffix keys b =
     foldl max 0 (map versionOf (filter (\<lambda>k. stripVersionSuffix k = b) keys))"

definition noLineBreak :: "string \<Rightarrow> bool" where
  "noLineBreak i = (\<not> hasLineTerminator i)"

text \<open>
  The same read through \<open>splitCloneId\<close>, and the invariant of a clone run: the tracker
  holds, for every base, the highest suffix among the keys.
\<close>

definition baseOf :: "string \<Rightarrow> string" where
  "baseOf i = fst (splitCloneId i)"

definition suffixOf :: "string \<Rightarrow> nat" where
  "suffixOf i = snd (splitCloneId i)"

definition highestSuffix :: "string list \<Rightarrow> string \<Rightarrow> nat" where
  "highestSuffix keys b = foldl max 0 (map suffixOf (filter (\<lambda>k. baseOf k = b) keys))"

definition trackerAgrees :: "string list \<Rightarrow> CloneTracker \<Rightarrow> bool" where
  "trackerAgrees keys tracker = (\<forall>b. orElse (tracker b) 0 = highestSuffix keys b)"

text \<open>Examples: ids with a line feed and with the separator U+2028 before the suffix.\<close>

definition lineFeedId :: string where
  "lineFeedId = ''a'' @ [CHR 0x0A] @ ''_v2''"

definition separatorId :: string where
  "separatorId = ''a'' @ [CHR 0xE2, CHR 0x80, CHR 0xA8] @ ''_v2''"

section \<open>ArchiveIngestor\<close>

text \<open>A JSON value, for the auxiliary metadata files, and its truthiness in a condition.\<close>

datatype Json =
    JNull
  | JBool bool
  | JNumber real
  | JString string
  | JArray "Json list"
  | JObject "(string \<times> Json) list"


text \<open>
  What the platform and the libraries do is a parameter: \<open>unzipSync\<close> of fflate (\<open>None\<close>
  when it throws), \<open>strFromU8\<close>, \<open>Buffer.toString('utf-8')\<close> of Node, \<open>JSON.parse\<close> of the
  text of a conversation array, and \<open>JSON.parse\<close> of the text of a metadata file (\<open>None\<close>
  when it throws). \<open>'b\<close> is the bytes of an archive, \<open>'d\<close> the bytes of an entry or file.
  Assets, generated assets among them, are outside this development: both importers
  handle them after the conversations of an archive are found, and the conversations do
  not depend on them. Of the auxiliary metadata, the extraction and the merge of the
  browser are part of it, since they come before an archive without conversation data
  is skipped.
\<close>

record ('b, 'd) ArchivePlatform =
  unzipSync :: "'b \<Rightarrow> (string \<times> 'd) list option"
  strFromU8 :: "'d \<Rightarrow> string"
  jsonParse :: "string \<Rightarrow> RawConversation list option"
  bufferToString :: "'d \<Rightarrow> string"
  jsonParseValue :: "string \<Rightarrow> Json option"

text \<open>\<open>hay.indexOf(needle)\<close>; \<open>None\<close> is \<open>-1\<close>.\<close>

fun indexOf :: "string \<Rightarrow> string \<Rightarrow> nat option" where
  "indexOf [] needle = (if needle = [] then Some 0 else None)"
| "indexOf (c # cs) needle =
     (if prefix needle (c # cs) then Some 0 else map_option Suc (indexOf cs needle))"

text \<open>
  The bracket loop of \<open>extractConversationsFromChat\<close>, run on the text from the first
  \<open>[\<close> on: \<open>depth\<close> as in the source, \<open>n\<close> the characters passed. The result is
  \<open>end - braceIndex\<close>, or \<open>None\<close> when the loop leaves \<open>depth\<close> other than zero.
\<close>

fun matchBrackets :: "string \<Rightarrow> int \<Rightarrow> nat \<Rightarrow> nat option" where
  "matchBrackets [] depth n = (if depth \<noteq> 0 then None else Some n)"
| "matchBrackets (c # cs) depth n =
     (let depth1 = (if c = CHR ''['' then depth + 1 else depth)
      in if c = CHR '']'' then
           (if depth1 - 1 = 0 then Some (n + 1) else matchBrackets cs (depth1 - 1) (n + 1))
         else matchBrackets cs depth1 (n + 1))"

definition extractConversationsFromChat ::
  "(string \<Rightarrow> RawConversation list option) \<Rightarrow> string \<Rightarrow> RawConversation list option" where
  "extractConversationsFromChat parse html =
     (case indexOf html ''var jsonData'' of
        None \<Rightarrow> None
      | Some markerIndex \<Rightarrow>
         (case indexOf (drop markerIndex html) ''['' of
            None \<Rightarrow> None
          | Some offset \<Rightarrow>
             (let fromBrace = drop (markerIndex + offset) html
              in case matchBrackets fromBrace 0 0 of
                   None \<Rightarrow> None
                 | Some len \<Rightarrow> parse (take len fromBrace))))"

definition safeJsonParse ::
  "(string \<Rightarrow> RawConversation list option) \<Rightarrow> string \<Rightarrow> RawConversation list
     \<Rightarrow> RawConversation list" where
  "safeJsonParse parse input fallback = orElse (parse input) fallback"

datatype Warning =
    FailedToUnzip string
  | ZipMissingConversationData
  | SkippingUnsafeConversationId string
  | FailedToParse string

subsection \<open>The payload of a converted conversation\<close>

text \<open>
  The summary and the payload both importers build from a conversion result;
  \<open>order\<close> is the value of the running counter (\<open>importOrder++\<close>, \<open>order++\<close>).
\<close>

definition buildPayload :: "SlimConversionResult \<Rightarrow> nat \<Rightarrow> ConversationPayload" where
  "buildPayload converted order =
     \<lparr> summary = \<lparr> sum_id = conv_id (conversation converted),
                    sum_last_message_time = last_message_time (conversation converted),
                    mapping_node_count = Some (mappingNodeCount converted) \<rparr>,
       payload_conversation = conversation converted,
       payload_mappingNodeCount = Some (mappingNodeCount converted),
       importOrder = order \<rparr>"

subsection \<open>The browser: \<open>parseExportZips\<close>\<close>
















text \<open>
  \<open>conversationsToProcess\<close> of the browser's \<open>importZips\<close>, from the bundle's
  conversations, the server index and the local index: in clone mode every payload goes
  through \<open>ensureClonePayloadIdForLocal\<close>, otherwise the payloads that \<open>isNewerSummary\<close>
  accepts against the local index are kept. \<open>new Map(entries)\<close> keeps the last entry of a
  key.
\<close>

datatype DatasetImportMode = Upsert | Replace | Clone

fun cloneAllForLocal ::
  "ConversationPayload list \<Rightarrow> string list \<Rightarrow> CloneTracker \<Rightarrow> ConversationPayload list" where
  "cloneAllForLocal [] usedIds tracker = []"
| "cloneAllForLocal (payload # rest) usedIds tracker =
     (case ensureClonePayloadIdForLocal payload usedIds tracker of
        (payload', usedIds', tracker') \<Rightarrow> payload' # cloneAllForLocal rest usedIds' tracker')"

definition conversationsToProcess ::
  "DatasetImportMode \<Rightarrow> ConversationPayload list \<Rightarrow> ConversationSummary list
     \<Rightarrow> ConversationSummary list \<Rightarrow> ConversationPayload list" where
  "conversationsToProcess mode bundleConversations serverIndex localIndex =
     (let baselineLocalIndex = (if mode = Replace then [] else localIndex);
          existingLocalMap = map_of (rev (map (\<lambda>e. (sum_id e, e)) baselineLocalIndex));
          usedConversationIds =
            setFromList (map sum_id serverIndex @ map sum_id baselineLocalIndex)
      in if mode = Clone
         then cloneAllForLocal bundleConversations usedConversationIds
                (buildCloneTracker usedConversationIds)
         else filter (\<lambda>payload. isNewerSummary (summary payload)
                                   (existingLocalMap (sum_id (summary payload))))
                bundleConversations)"

subsection \<open>The directory importer: \<open>importDatasets\<close>\<close>

datatype ImportError =
    NoExportsFound
  | FailedToReadZipArchive
  | ArchiveMissingConversations
  | DirectoryMissingConversations

text \<open>
  \<open>loadZipArchive\<close>: each \<open>throw\<close> is an error value. Unlike the browser it keeps an
  entry whose normalised name is empty.
\<close>

definition scanEntryServer ::
  "('d \<Rightarrow> string) \<Rightarrow> string \<times> string \<Rightarrow> string \<times> 'd \<Rightarrow> string \<times> string" where
  "scanEntryServer decode found entry =
     (let normalized = normalizePath (fst entry)
      in if suffix ''conversations.json'' normalized then (decode (snd entry), snd found)
         else if suffix ''chat.html'' normalized then (fst found, decode (snd entry))
         else found)"

definition loadZipArchive ::
  "('b, 'd) ArchivePlatform \<Rightarrow> 'b \<Rightarrow> ImportError + RawConversation list" where
  "loadZipArchive lib bytes =
     (case unzipSync lib bytes of
        None \<Rightarrow> Inl FailedToReadZipArchive
      | Some entriesRaw \<Rightarrow>
         (let found = foldl (scanEntryServer (strFromU8 lib)) ([], []) entriesRaw;
              conversationsJson = fst found;
              chatHtml = snd found;
              conversationsFromChat =
                (if chatHtml \<noteq> [] then extractConversationsFromChat (jsonParse lib) chatHtml
                 else None);
              conversations =
                (if conversationsFromChat \<noteq> None \<and> conversationsFromChat \<noteq> Some []
                 then conversationsFromChat
                 else if conversationsJson \<noteq> []
                      then Some (safeJsonParse (jsonParse lib) conversationsJson [])
                      else None)
          in case conversations of
               None \<Rightarrow> Inl ArchiveMissingConversations
             | Some cs \<Rightarrow> if cs = [] then Inl ArchiveMissingConversations else Inr cs))"

text \<open>
  A source of \<open>importDatasets\<close> is a zip archive, given by its bytes, or an export
  directory, given by its files: each with its path relative to the directory and its
  data, in the order in which \<open>walkDirectory\<close> stores them. That order is the one in
  which the reads of \<open>Promise.all\<close> end; a directory source stands for the directory read
  in one such order, and a statement about two runs over the same source takes the same
  order for both. A file or directory that cannot be read is outside this development.
\<close>

datatype ('b, 'd) Source =
    ZipSource 'b
  | DirSource "(string \<times> 'd) list"

text \<open>\<open>findEntry\<close>: the data of the first entry whose name ends with \<open>filename\<close>.\<close>

definition findEntry :: "(string \<times> 'd) list \<Rightarrow> string \<Rightarrow> 'd option" where
  "findEntry entries filename =
     map_option snd (find (\<lambda>entry. suffix filename (fst entry)) entries)"

text \<open>
  \<open>loadDirectoryArchive\<close>: the entries under their normalised names; the conversations
  embedded in \<open>chat.html\<close>, and when there are none, those of \<open>conversations.json\<close>, which
  may be none; without that file the \<open>throw\<close>.
\<close>

definition loadDirectoryArchive ::
  "('b, 'd) ArchivePlatform \<Rightarrow> (string \<times> 'd) list \<Rightarrow> ImportError + RawConversation list" where
  "loadDirectoryArchive lib files =
     (let entries = foldl (\<lambda>m file. AList.update (normalizePath (fst file)) (snd file) m) [] files;
          chatHtml = (case findEntry entries ''chat.html'' of
                        None \<Rightarrow> []
                      | Some chatEntry \<Rightarrow> bufferToString lib chatEntry);
          conversations =
            (if chatHtml \<noteq> [] then extractConversationsFromChat (jsonParse lib) chatHtml
             else None)
      in if conversations \<noteq> None \<and> conversations \<noteq> Some []
         then Inr (orElse conversations [])
         else (case findEntry entries ''conversations.json'' of
                 None \<Rightarrow> Inl DirectoryMissingConversations
               | Some conversationsEntry \<Rightarrow>
                   Inr (safeJsonParse (jsonParse lib) (bufferToString lib conversationsEntry) [])))"

definition loadSource ::
  "('b, 'd) ArchivePlatform \<Rightarrow> ('b, 'd) Source \<Rightarrow> ImportError + RawConversation list" where
  "loadSource lib source =
     (case source of
        ZipSource bytes \<Rightarrow> loadZipArchive lib bytes
      | DirSource files \<Rightarrow> loadDirectoryArchive lib files)"

text \<open>
  The persisted dataset, as far as reconciliation reads and writes it:
  \<open>conversations.json\<close> (\<open>None\<close> when the file is missing or does not parse) and the files
  \<open>conversations/<id>/conversation.json\<close>, keyed by the directory name. The files hold
  what their types say: a \<open>conversations.json\<close> that parses to something else than a list
  of summaries is outside this development.
\<close>

record Dataset =
  summariesFile :: "ConversationSummary list option"
  conversationFiles :: "(string \<times> Conversation) list"

definition loadExistingDataset :: "Dataset \<Rightarrow> PayloadMap" where
  "loadExistingDataset ds =
     (case summariesFile ds of
        None \<Rightarrow> []
      | Some summaries \<Rightarrow>
          foldl (\<lambda>payloads s.
                   case map_of (conversationFiles ds) (sum_id s) of
                     None \<Rightarrow> payloads
                   | Some c \<Rightarrow>
                       AList.update (sum_id s)
                         \<lparr> summary = s, payload_conversation = c,
                           payload_mappingNodeCount = Some (orElse (mapping_node_count s) 0),
                           importOrder = 0 \<rparr> payloads)
                [] summaries)"

text \<open>
  \<open>writeDataset\<close>: the conversation directory is cleared, a conversation file is written
  for every payload with a safe id, and the summaries of all payloads are written.
\<close>

definition writeDataset :: "PayloadMap \<Rightarrow> Dataset" where
  "writeDataset payloads =
     \<lparr> summariesFile = Some (map (\<lambda>entry. summary (snd entry)) payloads),
       conversationFiles =
         foldl (\<lambda>files entry.
                  if isSafeConversationId (conv_id (payload_conversation (snd entry)))
                  then AList.update (conv_id (payload_conversation (snd entry)))
                         (payload_conversation (snd entry)) files
                  else files)
               [] payloads \<rparr>"

record ImportState =
  merged :: PayloadMap
  cloneTracker :: CloneTracker
  importOrderCounter :: nat
  warnings :: "Warning list"

text \<open>The body of the loop over the conversations of one archive.\<close>

definition importConversation ::
  "DatasetImportMode \<Rightarrow> ImportState \<Rightarrow> RawConversation \<Rightarrow> ImportState" where
  "importConversation mode st raw =
     (case convertRawConversation raw of
        None \<Rightarrow> st
      | Some converted \<Rightarrow>
          if \<not> isSafeConversationId (conv_id (conversation converted))
          then st \<lparr> warnings := warnings st
                       @ [SkippingUnsafeConversationId (conv_id (conversation converted))] \<rparr>
          else
            let payload = buildPayload converted (importOrderCounter st);
                st1 = st \<lparr> importOrderCounter := importOrderCounter st + 1 \<rparr>
            in if mode = Clone
               then (case clonePayload (merged st1, cloneTracker st1) payload of
                       (merged', tracker') \<Rightarrow> st1 \<lparr> merged := merged', cloneTracker := tracker' \<rparr>)
               else st1 \<lparr> merged := upsertPayload (merged st1) payload \<rparr>)"

text \<open>
  The loop over the sources: a source that fails to load ends the import. What the loop
  does with the metadata and the assets of a source is outside this development.
\<close>

fun importSources ::
  "('b, 'd) ArchivePlatform \<Rightarrow> DatasetImportMode \<Rightarrow> ImportState \<Rightarrow> ('b, 'd) Source list
     \<Rightarrow> ImportError + ImportState" where
  "importSources lib mode st [] = Inr st"
| "importSources lib mode st (source # rest) =
     (case loadSource lib source of
        Inl err \<Rightarrow> Inl err
      | Inr conversations \<Rightarrow>
          importSources lib mode (foldl (importConversation mode) st conversations) rest)"

text \<open>
  The start of \<open>importDatasets\<close> in the modes upsert and clone: every payload of the
  existing dataset enters \<open>merged\<close> under its conversation id with the next import order.
\<close>

definition seedExisting :: "ImportState \<Rightarrow> ConversationPayload \<Rightarrow> ImportState" where
  "seedExisting st payload =
     st \<lparr> merged := AList.update (conv_id (payload_conversation payload))
                       (payload \<lparr> importOrder := importOrderCounter st \<rparr>) (merged st),
          importOrderCounter := importOrderCounter st + 1 \<rparr>"

text \<open>
  The state of \<open>importDatasets\<close> before the first source: empty in the mode replace,
  seeded with the existing dataset in the modes upsert and clone, and in the mode clone
  with the tracker built from the keys of \<open>merged\<close>.
\<close>

definition startImport :: "DatasetImportMode \<Rightarrow> Dataset \<Rightarrow> ImportState" where
  "startImport mode outputDir =
     (let start = \<lparr> merged = [], cloneTracker = Map.empty, importOrderCounter = 0,
                     warnings = [] \<rparr>;
          seeded = (if mode = Upsert \<or> mode = Clone
                    then foldl seedExisting start (map snd (loadExistingDataset outputDir))
                    else start)
      in if mode = Clone
         then seeded \<lparr> cloneTracker := buildCloneTracker (map fst (merged seeded)) \<rparr>
         else seeded)"

text \<open>
  \<open>importDatasets\<close> on the sources found (in order) and the dataset in the output
  directory: an error, with the dataset untouched, or the dataset written and the number
  of conversations reported.
\<close>

definition importDatasets ::
  "('b, 'd) ArchivePlatform \<Rightarrow> DatasetImportMode \<Rightarrow> Dataset \<Rightarrow> ('b, 'd) Source list
     \<Rightarrow> ImportError + Dataset \<times> nat" where
  "importDatasets lib mode outputDir sources =
     (if sources = [] then Inl NoExportsFound
      else case importSources lib mode (startImport mode outputDir) sources of
             Inl err \<Rightarrow> Inl err
           | Inr final \<Rightarrow> Inr (writeDataset (merged final), length (merged final)))"



text \<open>
  A platform for the examples: the archive \<open>0\<close> does not unzip, the archive \<open>1\<close> holds a
  \<open>conversations.json\<close> with one conversation, the archive \<open>3\<close> one with a conversation
  whose id has a line feed, every other archive holds a user file and no conversation
  data.
\<close>

definition exampleLib :: "(nat, string) ArchivePlatform" where
  "exampleLib =
     \<lparr> unzipSync = (\<lambda>b. if b = 0 then None
                        else if b = 1 then Some [(''export/conversations.json'', ''A'')]
                        else if b = 3 then Some [(''export/conversations.json'', ''L'')]
                        else Some [(''readme.txt'', ''B''), (''tmp/user.json'', ''U'')]),
       strFromU8 = (\<lambda>d. d),
       jsonParse = (\<lambda>s. if s = ''A''
                          then Some [exampleGraph ''c1'' ''n1'' (Some 1700000000)
                                       [exampleNode ''n1'' None
                                          (Some (exampleMessage ''m1'' ''user'' 1600000000))]]
                          else if s = ''L''
                          then Some [exampleGraph lineFeedId ''n1'' (Some 1700000000)
                                       [exampleNode ''n1'' None
                                          (Some (exampleMessage ''m1'' ''user'' 1600000000))]]
                          else None),
       bufferToString = (\<lambda>d. d),
       jsonParseValue = (\<lambda>s. if s = ''U'' then Some (JObject [(''id'', JString ''u1'')])
                               else None) \<rparr>"

definition emptyDataset :: Dataset where
  "emptyDataset = \<lparr> summariesFile = None, conversationFiles = [] \<rparr>"

text \<open>
  Two datasets no import has written: in the first the directory \<open>k\<close> holds a
  conversation with the id \<open>other\<close>; in the second the conversation has the id \<open>a..b\<close>,
  which \<open>isSafeConversationId\<close> rejects. And a batch of an archive and a directory, both
  with the conversation \<open>c1\<close>.
\<close>

definition exampleStale :: Dataset where
  "exampleStale =
     \<lparr> summariesFile = Some [summary (examplePayload ''k'' 1 1 0)],
       conversationFiles = [(''k'', payload_conversation (examplePayload ''other'' 1 1 0))] \<rparr>"

definition exampleUnsafe :: Dataset where
  "exampleUnsafe =
     \<lparr> summariesFile = Some [summary (examplePayload ''a..b'' 1 1 0)],
       conversationFiles = [(''a..b'', payload_conversation (examplePayload ''a..b'' 1 1 0))] \<rparr>"

definition exampleBatch :: "(nat, string) Source list" where
  "exampleBatch = [ZipSource 1, DirSource [(''export/conversations.json'', ''A'')]]"


text \<open>
  A dataset is consistent when every conversation file stands in the directory named by
  its own id, and that id is safe. \<open>writeDataset\<close> writes only such datasets.
\<close>

definition datasetConsistent :: "Dataset \<Rightarrow> bool" where
  "datasetConsistent ds =
     (\<forall>k c. map_of (conversationFiles ds) k = Some c \<longrightarrow> conv_id c = k \<and> isSafeConversationId k)"

text \<open>The conversation ids a dataset lists.\<close>

definition datasetIds :: "Dataset \<Rightarrow> string list" where
  "datasetIds ds = map sum_id (orElse (summariesFile ds) [])"

text \<open>The ids a batch brings: of every conversation that converts and has a safe id.\<close>

definition incomingIds :: "RawConversation \<Rightarrow> string set" where
  "incomingIds raw =
     (case convertRawConversation raw of
        None \<Rightarrow> {}
      | Some converted \<Rightarrow>
          if isSafeConversationId (conv_id (conversation converted))
          then {conv_id (conversation converted)} else {})"

definition batchIds :: "('b, 'd) ArchivePlatform \<Rightarrow> ('b, 'd) Source list \<Rightarrow> string set" where
  "batchIds lib sources =
     (\<Union>b \<in> set sources. case loadSource lib b of
                               Inl err \<Rightarrow> {}
                             | Inr conversations \<Rightarrow> \<Union>(incomingIds ` set conversations))"

text \<open>Every payload under its own safe id, in the summary and in the conversation.\<close>

definition wellKeyed :: "PayloadMap \<Rightarrow> bool" where
  "wellKeyed m =
     (distinct (map fst m)
      \<and> (\<forall>(k, p) \<in> set m. conv_id (payload_conversation p) = k \<and> sum_id (summary p) = k
                           \<and> isSafeConversationId k))"

section \<open>SearchIndexer: the query side\<close>





























section \<open>Properties of the AssetPathValidator\<close>

lemma splitOn_nonempty: "splitOn d s \<noteq> []"
  by (induction s) (auto split: list.splits)

lemma splitOn_no_sep: "p \<in> set (splitOn d s) \<Longrightarrow> d \<notin> set p"
  by (induction s arbitrary: p) (auto split: list.splits if_splits)

lemma splitOn_chars: "p \<in> set (splitOn d s) \<Longrightarrow> set p \<subseteq> set s"
proof (induction s arbitrary: p)
  case Nil
  then show ?case by simp
next
  case (Cons c cs)
  show ?case
  proof (cases "c = d")
    case True
    with Cons show ?thesis by auto
  next
    case False
    obtain q qs where q: "splitOn d cs = q # qs"
      using splitOn_nonempty [of d cs] by (cases "splitOn d cs") auto
    from Cons.prems False q have "p = c # q \<or> p \<in> set qs" by simp
    moreover have "set q \<subseteq> set cs" using Cons.IH [of q] q by simp
    moreover have "p \<in> set qs \<Longrightarrow> set p \<subseteq> set cs" using Cons.IH [of p] q by simp
    ultimately show ?thesis by auto
  qed
qed

lemma splitOn_no_occurrence: "d \<notin> set s \<Longrightarrow> splitOn d s = [s]"
  by (induction s) (auto split: list.splits)

lemma splitOn_append_sep:
  "d \<notin> set p \<Longrightarrow> splitOn d (p @ d # r) = p # splitOn d r"
  by (induction p) (auto split: list.splits simp: splitOn_nonempty)

lemma splitOn_joinWith:
  "ps \<noteq> [] \<Longrightarrow> \<forall>p\<in>set ps. d \<notin> set p \<Longrightarrow> splitOn d (joinWith [d] ps) = ps"
  by (induction "[d]" ps rule: joinWith.induct) (auto simp: splitOn_no_occurrence splitOn_append_sep)

lemma cleanParts_butlast: "cleanParts ps \<Longrightarrow> cleanParts (butlast ps)"
  by (auto simp: cleanParts_def dest: in_set_butlastD)

lemma collectSafeParts_clean:
  "cleanParts safe \<Longrightarrow> \<forall>p\<in>set parts. CHR ''/'' \<notin> set p \<and> CHR 0x5C \<notin> set p
     \<Longrightarrow> cleanParts (collectSafeParts parts safe)"
proof (induction parts safe rule: collectSafeParts.induct)
  case (1 safe)
  then show ?case by simp
next
  case (2 part parts safe)
  have rest: "\<forall>p\<in>set parts. CHR ''/'' \<notin> set p \<and> CHR 0x5C \<notin> set p"
    using "2.prems"(2) by simp
  show ?case
  proof (cases "part = [] \<or> part = ''.''")
    case True
    then show ?thesis using "2.IH"(1) "2.prems"(1) rest by simp
  next
    case False
    show ?thesis
    proof (cases "part = ''..''")
      case True
      then show ?thesis
        using "2.IH"(2) [OF False True cleanParts_butlast [OF "2.prems"(1)] rest] False by simp
    next
      case nodots: False
      have "cleanParts (safe @ [part])"
        using "2.prems" False nodots by (simp add: cleanParts_def)
      then show ?thesis
        using "2.IH"(3) [OF False nodots _ rest] False nodots by simp
    qed
  qed
qed

lemma collectSafeParts_keeps_clean:
  "cleanParts ps \<Longrightarrow> collectSafeParts ps acc = acc @ ps"
  by (induction ps arbitrary: acc) (auto simp: cleanParts_def)

lemma joinWith_chars: "set (joinWith sep ps) \<subseteq> set sep \<union> \<Union>(set ` set ps)"
  by (induction sep ps rule: joinWith.induct) auto

lemma joinWith_hd:
  "joinWith sep (p # ps) = p @ (if ps = [] then [] else sep @ joinWith sep ps)"
  by (cases ps) auto


lemma joinWith_eq_Nil: "\<forall>p\<in>set ps. p \<noteq> [] \<Longrightarrow> joinWith sep ps = [] \<longleftrightarrow> ps = []"
  by (cases ps) (auto simp: joinWith_hd)

lemma normalizePath_parts:
  "\<exists>ps. cleanParts ps \<and> normalizePath s = joinWith ''/'' ps"
proof -
  let ?n = "stripLeadingSlashes (stripLeadingDot (backslashesToSlashes s))"
  have a: "CHR 0x5C \<notin> set (backslashesToSlashes s)"
    by (auto simp: backslashesToSlashes_def)
  have b: "set (stripLeadingDot t) \<subseteq> set t" for t
    by (cases t) (auto split: list.splits)
  have c: "set (stripLeadingSlashes t) \<subseteq> set t" for t
    unfolding stripLeadingSlashes_def by (auto dest: set_dropWhileD)
  have "CHR 0x5C \<notin> set ?n"
    using a b c by blast
  then have "\<forall>p\<in>set (splitOn (CHR ''/'') ?n). CHR ''/'' \<notin> set p \<and> CHR 0x5C \<notin> set p"
    using splitOn_no_sep splitOn_chars by blast
  then have "cleanParts (collectSafeParts (splitOn (CHR ''/'') ?n) [])"
    by (intro collectSafeParts_clean) (simp_all add: cleanParts_def)
  then show ?thesis
    by (auto simp: normalizePath_def Let_def)
qed

lemma normalizePath_clean_join:
  assumes "cleanParts ps" and "\<not> prefix ''.'' (joinWith ''/'' ps)"
  shows "normalizePath (joinWith ''/'' ps) = joinWith ''/'' ps"
proof (cases ps)
  case Nil
  then show ?thesis
    by (simp add: normalizePath_def backslashesToSlashes_def stripLeadingSlashes_def)
next
  case (Cons p qs)
  let ?out = "joinWith ''/'' ps"
  have chars: "CHR 0x5C \<notin> set ?out"
    using assms(1) joinWith_chars [of "''/''" ps] by (auto simp: cleanParts_def)
  have p: "p \<noteq> []" "CHR ''/'' \<notin> set p" using assms(1) Cons by (auto simp: cleanParts_def)
  then obtain c cs where pc: "p = c # cs" "c \<noteq> CHR ''/''" by (cases p) auto
  have out: "?out = c # (cs @ (if qs = [] then [] else ''/'' @ joinWith ''/'' qs))"
    using Cons pc by (simp add: joinWith_hd)
  have "c \<noteq> CHR ''.''" using assms(2) out by simp
  have 1: "backslashesToSlashes ?out = ?out"
    using chars unfolding backslashesToSlashes_def by (intro map_idI) auto
  have 2: "stripLeadingDot ?out = ?out"
    using out \<open>c \<noteq> CHR ''.''\<close> by simp
  have 3: "stripLeadingSlashes ?out = ?out"
    using out pc(2) by (simp add: stripLeadingSlashes_def)
  have 4: "splitOn (CHR ''/'') ?out = ps"
    using splitOn_joinWith [of ps "CHR ''/''"] assms(1) Cons by (auto simp: cleanParts_def)
  show ?thesis
    unfolding normalizePath_def Let_def 1 2 3 4
    by (simp add: collectSafeParts_keeps_clean [OF assms(1)])
qed

lemma normalizePath_no_backslash: "CHR 0x5C \<notin> set (normalizePath s)"
proof -
  obtain ps where ps: "cleanParts ps" "normalizePath s = joinWith ''/'' ps"
    using normalizePath_parts by blast
  then show ?thesis
    using joinWith_chars [of "''/''" ps] by (auto simp: cleanParts_def)
qed

lemma normalizePath_not_absolute: "\<not> prefix ''/'' (normalizePath s)"
proof -
  obtain ps where ps: "cleanParts ps" "normalizePath s = joinWith ''/'' ps"
    using normalizePath_parts by blast
  show ?thesis
  proof (cases ps)
    case Nil
    then show ?thesis using ps by simp
  next
    case (Cons p qs)
    then have "p \<noteq> []" "CHR ''/'' \<notin> set p" using ps(1) by (auto simp: cleanParts_def)
    then obtain c cs where "p = c # cs" "c \<noteq> CHR ''/''" by (cases p) auto
    then show ?thesis using ps(2) Cons by (simp add: joinWith_hd)
  qed
qed

lemma normalizePath_segments:
  assumes "normalizePath s \<noteq> []" and "seg \<in> set (splitOn (CHR ''/'') (normalizePath s))"
  shows "seg \<noteq> [] \<and> seg \<noteq> ''.'' \<and> seg \<noteq> ''..''"
proof -
  obtain ps where ps: "cleanParts ps" "normalizePath s = joinWith ''/'' ps"
    using normalizePath_parts by blast
  from assms(1) ps have "ps \<noteq> []" by auto
  then have "splitOn (CHR ''/'') (normalizePath s) = ps"
    using splitOn_joinWith [of ps "CHR ''/''"] ps by (auto simp: cleanParts_def)
  with assms(2) ps(1) show ?thesis by (auto simp: cleanParts_def)
qed

lemma normalizePath_idempotent_off_dot:
  assumes "\<not> prefix ''.'' (normalizePath s)"
  shows "normalizePath (normalizePath s) = normalizePath s"
proof -
  obtain ps where ps: "cleanParts ps" "normalizePath s = joinWith ''/'' ps"
    using normalizePath_parts by blast
  then show ?thesis
    using normalizePath_clean_join [OF ps(1)] assms by simp
qed

text \<open>
  C10, as the claim states it, fails: \<open>normalizePath\<close> is not idempotent. The first
  replacement removes a leading dot whatever follows it, so \<open>..a\<close> becomes \<open>.a\<close>, and \<open>.a\<close>
  becomes \<open>a\<close>.
\<close>

theorem normalizePath_not_idempotent:
  "normalizePath ''..a'' = ''.a'' \<and> normalizePath (normalizePath ''..a'') = ''a''
   \<and> normalizePath (normalizePath ''..a'') \<noteq> normalizePath ''..a''"
  by (simp add: normalizePath_def backslashesToSlashes_def stripLeadingSlashes_def)

text \<open>
  C10, amended. For every string, the output of \<open>normalizePath\<close> contains no backslash,
  does not begin with a slash, and (when it is not empty) has no segment that is empty, a
  dot or two dots; \<open>normalizePath\<close> applied again changes nothing whenever that output
  does not begin with a dot; and every path that \<open>isSafeRelativePath\<close> accepts has a
  non-empty output, which is such a clean relative path.
\<close>

theorem normalizePath_clean_output:
  "CHR 0x5C \<notin> set (normalizePath s)
   \<and> \<not> prefix ''/'' (normalizePath s)
   \<and> (normalizePath s \<noteq> [] \<longrightarrow>
        (\<forall>seg \<in> set (splitOn (CHR ''/'') (normalizePath s)).
           seg \<noteq> [] \<and> seg \<noteq> ''.'' \<and> seg \<noteq> ''..''))
   \<and> (\<not> prefix ''.'' (normalizePath s) \<longrightarrow> normalizePath (normalizePath s) = normalizePath s)
   \<and> (isSafeRelativePath s \<longrightarrow> normalizePath s \<noteq> [])"
proof -
  have "isSafeRelativePath s \<longrightarrow> normalizePath s \<noteq> []"
    by (simp add: isSafeRelativePath_def split: if_splits)
  then show ?thesis
    using normalizePath_no_backslash [of s] normalizePath_not_absolute [of s]
      normalizePath_segments [of s] normalizePath_idempotent_off_dot [of s]
    by blast
qed

theorem normalizePath_clean_output_witness:
  "isSafeRelativePath ''img/./a.png''
   \<and> normalizePath ''img/./a.png'' = ''img/a.png''
   \<and> splitOn (CHR ''/'') (normalizePath ''img/./a.png'') = [''img'', ''a.png'']
   \<and> normalizePath (normalizePath ''img/./a.png'') = normalizePath ''img/./a.png''"
  using normalizePath_clean_output [of "''img/./a.png''"]
  by (simp add: normalizePath_def backslashesToSlashes_def stripLeadingSlashes_def
      isSafeRelativePath_def pathHasTraversal_def isAsciiLetter_def)

lemma writeAssets_sound:
  "(assetKey, assetPath) \<in> set (writeAssets resolve sep assetsDir assetData) \<Longrightarrow>
     isSafeRelativePath assetKey \<and> safeJoinUnder resolve sep assetsDir assetKey = Some assetPath"
  by (induction resolve sep assetsDir assetData rule: writeAssets.induct)
    (auto split: if_splits option.splits)

text \<open>
  C3. \<open>isSafeRelativePath\<close> rejects the empty string, a string with a NUL character, one
  with a backslash, one that begins with a slash, one that begins with a drive letter and
  a colon, and one with a segment equal to two dots. Every asset file the directory writer
  writes has a key the validator accepts, and its path is what \<open>path.resolve\<close> gives for the
  assets directory and the key, which is the assets directory itself or begins with the
  assets directory and the separator: this holds for every \<open>path.resolve\<close> and separator.
\<close>

theorem unsafe_paths_rejected_and_writes_stay_under_root:
  "(input = [] \<or> CHR 0x00 \<in> set input \<or> CHR 0x5C \<in> set input \<or> prefix ''/'' input
      \<or> (\<exists>c rest. input = c # CHR '':'' # rest \<and> isAsciiLetter c)
      \<or> ''..'' \<in> set (splitOn (CHR ''/'') input)
     \<longrightarrow> \<not> isSafeRelativePath input)
   \<and> (\<forall>(assetKey, assetPath) \<in> set (writeAssets resolve sep assetsDir assetData).
        isSafeRelativePath assetKey
        \<and> ''..'' \<notin> set (splitOn (CHR ''/'') assetKey)
        \<and> assetPath = resolve assetsDir assetKey
        \<and> (assetPath = assetsDir
            \<or> prefix (if suffix sep assetsDir then assetsDir else assetsDir @ sep) assetPath))"
proof (intro conjI)
  show "input = [] \<or> CHR 0x00 \<in> set input \<or> CHR 0x5C \<in> set input \<or> prefix ''/'' input
      \<or> (\<exists>c rest. input = c # CHR '':'' # rest \<and> isAsciiLetter c)
      \<or> ''..'' \<in> set (splitOn (CHR ''/'') input)
     \<longrightarrow> \<not> isSafeRelativePath input"
    by (auto simp: isSafeRelativePath_def pathHasTraversal_def)
next
  show "\<forall>(assetKey, assetPath) \<in> set (writeAssets resolve sep assetsDir assetData).
        isSafeRelativePath assetKey
        \<and> ''..'' \<notin> set (splitOn (CHR ''/'') assetKey)
        \<and> assetPath = resolve assetsDir assetKey
        \<and> (assetPath = assetsDir
            \<or> prefix (if suffix sep assetsDir then assetsDir else assetsDir @ sep) assetPath)"
  proof (clarify, intro conjI)
    fix assetKey assetPath
    assume "(assetKey, assetPath) \<in> set (writeAssets resolve sep assetsDir assetData)"
    then have safe: "isSafeRelativePath assetKey"
      and join: "safeJoinUnder resolve sep assetsDir assetKey = Some assetPath"
      using writeAssets_sound by blast+
    show "isSafeRelativePath assetKey" by (rule safe)
    show "''..'' \<notin> set (splitOn (CHR ''/'') assetKey)"
      using safe by (auto simp: isSafeRelativePath_def pathHasTraversal_def split: if_splits)
    show "assetPath = resolve assetsDir assetKey"
      using join by (auto simp: safeJoinUnder_def Let_def split: if_splits)
    show "assetPath = assetsDir
            \<or> prefix (if suffix sep assetsDir then assetsDir else assetsDir @ sep) assetPath"
      using join by (auto simp: safeJoinUnder_def Let_def split: if_splits)
  qed
qed

text \<open>
  The crafted key \<open>../escape.png\<close> is rejected and no file is written for it; the key
  beside it is written under the assets directory.
\<close>

theorem unsafe_paths_rejected_and_writes_stay_under_root_witness:
  "\<not> isSafeRelativePath ''../escape.png''
   \<and> writeAssets (\<lambda>root rel. root @ ''/'' @ rel) ''/'' ''/out/assets''
        [(''../escape.png'', ''png''), (''img/a.png'', ''png'')]
      = [(''img/a.png'', ''/out/assets/img/a.png'')]
   \<and> isSafeRelativePath ''img/a.png''
   \<and> prefix ''/out/assets/'' ''/out/assets/img/a.png''"
  using unsafe_paths_rejected_and_writes_stay_under_root
    [of "''../escape.png''" "\<lambda>root rel. root @ ''/'' @ rel" "''/''" "''/out/assets''"
      "[(''../escape.png'', ''png''), (''img/a.png'', ''png'')]"]
  by (simp add: isSafeRelativePath_def pathHasTraversal_def normalizePath_def
      backslashesToSlashes_def stripLeadingSlashes_def isAsciiLetter_def safeJoinUnder_def)

section \<open>Properties of the GraphConverter\<close>

lemma collectPath_None [simp]: "collectPath nodes visited None = []"
  by (simp add: collectPath.simps)

lemma collectPath_Some:
  "collectPath nodes visited (Some c) =
     (if node_id c \<in> set visited then []
      else c # collectPath nodes (node_id c # visited) (parentOf nodes c))"
  by (simp add: collectPath.simps)

lemma collectPath_fresh:
  "n \<in> set (collectPath nodes visited cursor) \<Longrightarrow> node_id n \<notin> set visited"
proof (induction nodes visited cursor rule: collectPath.induct)
  case (1 nodes visited cursor)
  show ?case
  proof (cases cursor)
    case None
    with "1.prems" show ?thesis by simp
  next
    case (Some c)
    show ?thesis
    proof (cases "node_id c \<in> set visited")
      case True
      with "1.prems" Some show ?thesis by (simp add: collectPath_Some)
    next
      case False
      with "1.prems" Some have "n = c \<or> n \<in> set (collectPath nodes (node_id c # visited) (parentOf nodes c))"
        by (simp add: collectPath_Some)
      then show ?thesis
        using "1.IH" [OF Some False] False by auto
    qed
  qed
qed

lemma collectPath_distinct: "distinct (map node_id (collectPath nodes visited cursor))"
proof (induction nodes visited cursor rule: collectPath.induct)
  case (1 nodes visited cursor)
  show ?case
  proof (cases cursor)
    case None
    then show ?thesis by simp
  next
    case (Some c)
    show ?thesis
    proof (cases "node_id c \<in> set visited")
      case True
      with Some show ?thesis by (simp add: collectPath_Some)
    next
      case False
      have "node_id c \<notin> node_id ` set (collectPath nodes (node_id c # visited) (parentOf nodes c))"
      proof
        assume "node_id c \<in> node_id ` set (collectPath nodes (node_id c # visited) (parentOf nodes c))"
        then obtain n where "n \<in> set (collectPath nodes (node_id c # visited) (parentOf nodes c))"
          and "node_id n = node_id c" by auto
        then show False
          using collectPath_fresh [of n nodes "node_id c # visited" "parentOf nodes c"] by simp
      qed
      then show ?thesis
        using "1.IH" [OF Some False] Some False by (simp add: collectPath_Some)
    qed
  qed
qed

lemma parentOf_in_nodes: "parentOf nodes c = Some q \<Longrightarrow> q \<in> snd ` set nodes"
  by (auto simp: parentOf_def split: option.splits if_splits dest!: map_of_SomeD
      intro: image_eqI [where x = "(a, b)" for a b])

lemma collectPath_subset:
  "set (collectPath nodes visited cursor) \<subseteq> set_option cursor \<union> snd ` set nodes"
proof (induction nodes visited cursor rule: collectPath.induct)
  case (1 nodes visited cursor)
  show ?case
  proof (cases cursor)
    case None
    then show ?thesis by simp
  next
    case (Some c)
    show ?thesis
    proof (cases "node_id c \<in> set visited")
      case True
      with Some show ?thesis by (simp add: collectPath_Some)
    next
      case False
      have "set_option (parentOf nodes c) \<subseteq> snd ` set nodes"
        using parentOf_in_nodes by (cases "parentOf nodes c") auto
      then show ?thesis
        using "1.IH" [OF Some False] Some False by (auto simp: collectPath_Some)
    qed
  qed
qed

lemma collectPath_length:
  "length (collectPath nodes visited (map_of nodes k)) \<le> length nodes"
proof -
  let ?ps = "collectPath nodes visited (map_of nodes k)"
  have "set_option (map_of nodes k) \<subseteq> snd ` set nodes"
    by (cases "map_of nodes k") (auto dest!: map_of_SomeD intro: image_eqI [where x = "(a, b)" for a b])
  then have sub: "set ?ps \<subseteq> snd ` set nodes"
    using collectPath_subset [of nodes visited "map_of nodes k"] by blast
  have "distinct ?ps"
    using collectPath_distinct [of nodes visited "map_of nodes k"] by (simp add: distinct_map)
  then have "length ?ps = card (set ?ps)"
    by (simp add: distinct_card)
  also have "\<dots> \<le> card (snd ` set nodes)"
    using sub by (intro card_mono) auto
  also have "\<dots> \<le> length nodes"
    by (metis card_image_le card_length le_trans List.finite_set)
  finally show ?thesis .
qed

lemma collectPath_hd:
  "collectPath nodes visited cursor = p # ps \<Longrightarrow> cursor = Some p"
  by (cases cursor) (auto simp: collectPath_Some split: if_splits)

lemma collectPath_linked: "linkedByParent nodes (collectPath nodes visited cursor)"
proof (induction nodes visited cursor rule: collectPath.induct)
  case (1 nodes visited cursor)
  show ?case
  proof (cases cursor)
    case None
    then show ?thesis by simp
  next
    case (Some c)
    show ?thesis
    proof (cases "node_id c \<in> set visited")
      case True
      with Some show ?thesis by (simp add: collectPath_Some)
    next
      case False
      let ?rest = "collectPath nodes (node_id c # visited) (parentOf nodes c)"
      show ?thesis
      proof (cases ?rest)
        case Nil
        with Some False show ?thesis by (simp add: collectPath_Some)
      next
        case (Cons d ds)
        then have "parentOf nodes c = Some d" by (rule collectPath_hd)
        then show ?thesis
          using "1.IH" [OF Some False] Some False Cons by (simp add: collectPath_Some)
      qed
    qed
  qed
qed

lemma collectPath_stop:
  "collectPath nodes visited cursor = ps \<Longrightarrow> ps \<noteq> [] \<Longrightarrow>
     (case parentOf nodes (last ps) of
        None \<Rightarrow> True
      | Some q \<Rightarrow> node_id q \<in> set visited \<union> node_id ` set ps)"
proof (induction nodes visited cursor arbitrary: ps rule: collectPath.induct)
  case (1 nodes visited cursor)
  show ?case
  proof (cases cursor)
    case None
    with "1.prems" show ?thesis by simp
  next
    case (Some c)
    show ?thesis
    proof (cases "node_id c \<in> set visited")
      case True
      with "1.prems" Some show ?thesis by (simp add: collectPath_Some)
    next
      case False
      let ?rest = "collectPath nodes (node_id c # visited) (parentOf nodes c)"
      have ps: "ps = c # ?rest" using "1.prems" Some False by (simp add: collectPath_Some)
      show ?thesis
      proof (cases "?rest = []")
        case True
        then have "parentOf nodes c = None \<or> (\<exists>q. parentOf nodes c = Some q \<and> node_id q \<in> set (node_id c # visited))"
          by (cases "parentOf nodes c") (auto simp: collectPath_Some split: if_splits)
        then show ?thesis using ps True by (auto split: option.splits)
      next
        case nonempty: False
        have "case parentOf nodes (last ?rest) of None \<Rightarrow> True
              | Some q \<Rightarrow> node_id q \<in> set (node_id c # visited) \<union> node_id ` set ?rest"
          using "1.IH" [OF Some False refl nonempty] .
        then show ?thesis using ps nonempty by (auto split: option.splits)
      qed
    qed
  qed
qed

lemma isRoot_parentOf: "isRoot r \<Longrightarrow> parentOf nodes r = None"
  by (auto simp: isRoot_def parentOf_def)

lemma collectPath_validChain:
  "validChain nodes chain \<Longrightarrow> distinct (map node_id chain) \<Longrightarrow>
   node_id ` set chain \<inter> set visited = {} \<Longrightarrow>
   collectPath nodes visited (Some (hd chain)) = chain"
proof (induction nodes chain arbitrary: visited rule: validChain.induct)
  case (1 nodes)
  then show ?case by simp
next
  case (2 nodes r)
  then show ?case by (simp add: collectPath_Some isRoot_parentOf)
next
  case (3 nodes c d rest)
  have "node_id ` set (d # rest) \<inter> set (node_id c # visited) = {}"
    using "3.prems"(2,3) by auto
  then have "collectPath nodes (node_id c # visited) (Some (hd (d # rest))) = d # rest"
    using "3.IH" [of "node_id c # visited"] "3.prems"(1,2) by simp
  then show ?case
    using "3.prems" by (simp add: collectPath_Some)
qed

lemma foldl_convertStep_messages:
  "fst (foldl convertStep (ms, t) ps) = ms @ List.map_filter transformMessage ps"
proof (induction ps arbitrary: ms t)
  case Nil
  then show ?case by (simp add: List.map_filter_simps)
next
  case (Cons p ps)
  show ?case
  proof (cases "transformMessage p")
    case None
    then show ?thesis using Cons [of ms t] by (simp add: convertStep_def List.map_filter_simps)
  next
    case (Some m)
    then show ?thesis
      using Cons [of "ms @ [m]"] by (simp add: convertStep_def List.map_filter_simps)
  qed
qed

lemma transformMessage_None: "transformMessage n = None \<longleftrightarrow> message n = None"
  by (simp add: transformMessage_def split: option.splits)

lemma map_filter_length: "length (List.map_filter f xs) \<le> length xs"
  by (simp add: List.map_filter_def)

lemma map_filter_Nil: "List.map_filter f xs = [] \<longleftrightarrow> (\<forall>x\<in>set xs. f x = None)"
  by (induction xs) (auto simp: List.map_filter_simps split: option.splits)

lemma convertRawConversation_messages:
  assumes "mapping raw = Some nodes" "current_node raw = Some cur" "cur \<noteq> []"
  shows "case convertRawConversation raw of
           None \<Rightarrow> List.map_filter transformMessage (rev (collectPath nodes [] (map_of nodes cur))) = []
         | Some r \<Rightarrow> messages (conversation r)
                       = List.map_filter transformMessage (rev (collectPath nodes [] (map_of nodes cur)))
                     \<and> mappingNodeCount r = length (remdups (map fst nodes))"
  using assms
  by (simp add: convertRawConversation_def Let_def foldl_convertStep_messages)

lemma convertRawConversation_Some_mapping:
  "convertRawConversation raw = Some r \<Longrightarrow>
     \<exists>nodes cur. mapping raw = Some nodes \<and> current_node raw = Some cur \<and> cur \<noteq> []"
  by (auto simp: convertRawConversation_def split: option.splits if_splits)

text \<open>
  C4. For a graph whose current node starts a chain of \<open>N\<close> nodes to a root, with every
  parent reference present and no node id twice, the traversal collects exactly that
  chain, and the conversation holds exactly the messages of the chain's nodes, from the
  root to the current node (the reverse of the traversal). When no node of the chain
  carries a message there is no conversation.
\<close>

theorem valid_chain_messages_in_order:
  assumes "mapping raw = Some nodes" and "current_node raw = Some cur" and "cur \<noteq> []"
    and "map_of nodes cur = Some c"
    and "validChain nodes (c # rest)"
    and "distinct (map node_id (c # rest))"
    and "length (c # rest) = N"
  shows "collectPath nodes [] (map_of nodes cur) = c # rest
     \<and> (case convertRawConversation raw of
          None \<Rightarrow> \<forall>n \<in> set (c # rest). message n = None
        | Some r \<Rightarrow>
            messages (conversation r) = List.map_filter transformMessage (rev (c # rest))
            \<and> length (messages (conversation r)) \<le> N)"
proof -
  have path: "collectPath nodes [] (map_of nodes cur) = c # rest"
    using collectPath_validChain [OF assms(5,6), of "[]"] assms(4) by simp
  have conv: "case convertRawConversation raw of
           None \<Rightarrow> List.map_filter transformMessage (rev (c # rest)) = []
         | Some r \<Rightarrow> messages (conversation r) = List.map_filter transformMessage (rev (c # rest))
                     \<and> mappingNodeCount r = length (remdups (map fst nodes))"
    using convertRawConversation_messages [OF assms(1-3)] path by (simp split: option.splits)
  show ?thesis
  proof (cases "convertRawConversation raw")
    case None
    then have "List.map_filter transformMessage (rev (c # rest)) = []" using conv by simp
    then have "\<forall>n \<in> set (c # rest). message n = None"
      unfolding map_filter_Nil by (simp add: transformMessage_None)
    then show ?thesis using path None by simp
  next
    case (Some r)
    then have m: "messages (conversation r) = List.map_filter transformMessage (rev (c # rest))"
      using conv by simp
    have "length (messages (conversation r)) \<le> length (rev (c # rest))"
      unfolding m by (rule map_filter_length)
    then show ?thesis using path Some m assms(7) by simp
  qed
qed

lemma truncated_chain_unique:
  assumes "linkedByParent nodes as" "linkedByParent nodes bs" "as \<noteq> []" "bs \<noteq> []"
    and "hd as = hd bs"
    and "distinct (map node_id as)" "distinct (map node_id bs)"
    and "node_id ` set as \<inter> V = {}" "node_id ` set bs \<inter> V = {}"
    and "case parentOf nodes (last as) of None \<Rightarrow> True
         | Some q \<Rightarrow> node_id q \<in> V \<union> node_id ` set as"
    and "case parentOf nodes (last bs) of None \<Rightarrow> True
         | Some q \<Rightarrow> node_id q \<in> V \<union> node_id ` set bs"
  shows "as = bs"
  using assms
proof (induction as arbitrary: bs V)
  case Nil
  then show ?case by simp
next
  case (Cons a as')
  from Cons.prems obtain bs' where bs: "bs = a # bs'" by (cases bs) auto
  show ?case
  proof (cases as')
    case Nil
    show ?thesis
    proof (cases bs')
      case Nil
      with \<open>as' = []\<close> bs show ?thesis by simp
    next
      case (Cons d ds)
      with bs Cons.prems(2) have "parentOf nodes a = Some d" by simp
      moreover have "node_id d \<noteq> node_id a" "node_id d \<notin> V"
        using Cons.prems(7,9) bs Cons by auto
      ultimately show ?thesis using Cons.prems(10) \<open>as' = []\<close> by simp
    qed
  next
    case (Cons c cs)
    then have pc: "parentOf nodes a = Some c" using Cons.prems(1) by simp
    show ?thesis
    proof (cases bs')
      case Nil
      have "node_id c \<noteq> node_id a" "node_id c \<notin> V"
        using Cons.prems(6,8) Cons by auto
      then show ?thesis using Cons.prems(11) bs Nil pc by simp
    next
      case bcons: (Cons d ds)
      with bs Cons.prems(2) have "parentOf nodes a = Some d" by simp
      with pc have dc: "d = c" by simp
      have "as' = bs'"
      proof (rule Cons.IH [where V = "insert (node_id a) V"])
        show "linkedByParent nodes as'" using Cons.prems(1) Cons by simp
        show "linkedByParent nodes bs'" using Cons.prems(2) bs bcons by simp
        show "as' \<noteq> []" using Cons by simp
        show "bs' \<noteq> []" using bcons by simp
        show "hd as' = hd bs'" using Cons bcons dc by simp
        show "distinct (map node_id as')" using Cons.prems(6) by simp
        show "distinct (map node_id bs')" using Cons.prems(7) bs by simp
        show "node_id ` set as' \<inter> insert (node_id a) V = {}"
          using Cons.prems(6,8) by auto
        show "node_id ` set bs' \<inter> insert (node_id a) V = {}"
          using Cons.prems(7,9) bs by auto
        show "case parentOf nodes (last as') of None \<Rightarrow> True
              | Some q \<Rightarrow> node_id q \<in> insert (node_id a) V \<union> node_id ` set as'"
          using Cons.prems(10) Cons by (auto split: option.splits)
        show "case parentOf nodes (last bs') of None \<Rightarrow> True
              | Some q \<Rightarrow> node_id q \<in> insert (node_id a) V \<union> node_id ` set bs'"
          using Cons.prems(11) bs bcons by (auto split: option.splits)
      qed
      then show ?thesis using bs by simp
    qed
  qed
qed

lemma collectPath_truncated:
  "truncatedPath nodes c (collectPath nodes [] (Some c))"
proof -
  let ?p = "collectPath nodes [] (Some c)"
  have ne: "?p \<noteq> []" by (simp add: collectPath_Some)
  have "hd ?p = c" by (simp add: collectPath_Some)
  moreover have "linkedByParent nodes ?p" by (rule collectPath_linked)
  moreover have "distinct (map node_id ?p)" by (rule collectPath_distinct)
  moreover have "case parentOf nodes (last ?p) of None \<Rightarrow> True
                 | Some q \<Rightarrow> node_id q \<in> node_id ` set ?p"
    using collectPath_stop [OF refl ne] by (simp split: option.splits)
  ultimately show ?thesis using ne by (simp add: truncatedPath_def)
qed

lemma collectPath_only_truncated:
  assumes "truncatedPath nodes c ps"
  shows "ps = collectPath nodes [] (Some c)"
proof (rule truncated_chain_unique [where V = "{}" and nodes = nodes])
  note mine = collectPath_truncated [of nodes c, unfolded truncatedPath_def]
  note theirs = assms [unfolded truncatedPath_def]
  show "linkedByParent nodes ps" "ps \<noteq> []" "distinct (map node_id ps)"
    using theirs by simp_all
  show "linkedByParent nodes (collectPath nodes [] (Some c))"
    "collectPath nodes [] (Some c) \<noteq> []"
    "distinct (map node_id (collectPath nodes [] (Some c)))"
    using mine by simp_all
  show "hd ps = hd (collectPath nodes [] (Some c))" using mine theirs by simp
  show "node_id ` set ps \<inter> {} = {}" "node_id ` set (collectPath nodes [] (Some c)) \<inter> {} = {}"
    by simp_all
  show "case parentOf nodes (last ps) of None \<Rightarrow> True
        | Some q \<Rightarrow> node_id q \<in> {} \<union> node_id ` set ps"
    using theirs by (simp split: option.splits)
  show "case parentOf nodes (last (collectPath nodes [] (Some c))) of None \<Rightarrow> True
        | Some q \<Rightarrow> node_id q \<in> {} \<union> node_id ` set (collectPath nodes [] (Some c))"
    using mine by (simp split: option.splits)
qed

text \<open>
  C9. The traversal is a total function (its termination is proved with its definition),
  on every mapping and from every start, cyclic or with missing parents: no node id occurs
  twice on the path; the path is no longer than the mapping has entries; each step follows
  a parent link; and the path ends at a node whose parent reference is absent or missing
  from the mapping, or whose parent's id is already on the path. When the current node is
  in the mapping the path begins with it, so what was collected before the stop is kept,
  and the path is the only one with these properties; when it is not, the path is empty.
  The conversion returns a value: its messages are those of the nodes of the path, the
  root end first, at most one message per entry of the mapping.
\<close>

theorem traversal_visits_each_id_once:
  "distinct (map node_id (collectPath nodes [] (map_of nodes cur)))
   \<and> length (collectPath nodes [] (map_of nodes cur)) \<le> length nodes
   \<and> linkedByParent nodes (collectPath nodes [] (map_of nodes cur))
   \<and> (collectPath nodes [] (map_of nodes cur) \<noteq> [] \<longrightarrow>
        (case parentOf nodes (last (collectPath nodes [] (map_of nodes cur))) of
           None \<Rightarrow> True
         | Some q \<Rightarrow> node_id q \<in> node_id ` set (collectPath nodes [] (map_of nodes cur))))
   \<and> (\<forall>r. convertRawConversation raw = Some r \<and> mapping raw = Some nodes \<longrightarrow>
          length (messages (conversation r)) \<le> length nodes)
   \<and> (map_of nodes cur = None \<longrightarrow> collectPath nodes [] (map_of nodes cur) = [])
   \<and> (\<forall>c. map_of nodes cur = Some c \<longrightarrow>
          truncatedPath nodes c (collectPath nodes [] (map_of nodes cur))
          \<and> (\<forall>ps. truncatedPath nodes c ps \<longrightarrow> ps = collectPath nodes [] (map_of nodes cur)))
   \<and> (\<forall>r. convertRawConversation raw = Some r \<and> mapping raw = Some nodes
            \<and> current_node raw = Some cur \<longrightarrow>
          messages (conversation r)
            = List.map_filter transformMessage (rev (collectPath nodes [] (map_of nodes cur))))"
proof (intro conjI allI impI)
  show "distinct (map node_id (collectPath nodes [] (map_of nodes cur)))"
    by (rule collectPath_distinct)
  show "length (collectPath nodes [] (map_of nodes cur)) \<le> length nodes"
    by (rule collectPath_length)
  show "linkedByParent nodes (collectPath nodes [] (map_of nodes cur))"
    by (rule collectPath_linked)
  show "case parentOf nodes (last (collectPath nodes [] (map_of nodes cur))) of
           None \<Rightarrow> True
         | Some q \<Rightarrow> node_id q \<in> node_id ` set (collectPath nodes [] (map_of nodes cur))"
    if "collectPath nodes [] (map_of nodes cur) \<noteq> []"
    using collectPath_stop [OF refl that] by (simp split: option.splits)
  show "length (messages (conversation r)) \<le> length nodes"
    if "convertRawConversation raw = Some r \<and> mapping raw = Some nodes" for r
  proof -
    from that have "convertRawConversation raw = Some r" by simp
    from convertRawConversation_Some_mapping [OF this]
    obtain cur' where c: "current_node raw = Some cur'" "cur' \<noteq> []" by blast
    have "messages (conversation r)
           = List.map_filter transformMessage (rev (collectPath nodes [] (map_of nodes cur')))"
      using convertRawConversation_messages [of raw nodes cur'] c that by (simp split: option.splits)
    then have "length (messages (conversation r)) \<le> length (collectPath nodes [] (map_of nodes cur'))"
      using map_filter_length [of transformMessage "rev (collectPath nodes [] (map_of nodes cur'))"]
      by simp
    then show ?thesis
      using collectPath_length [of nodes "[]" cur'] by linarith
  qed
  show "collectPath nodes [] (map_of nodes cur) = []" if "map_of nodes cur = None"
    using that by simp
  show "truncatedPath nodes c (collectPath nodes [] (map_of nodes cur))"
    if "map_of nodes cur = Some c" for c
    unfolding that by (rule collectPath_truncated)
  show "ps = collectPath nodes [] (map_of nodes cur)"
    if "map_of nodes cur = Some c" "truncatedPath nodes c ps" for c ps
    unfolding that(1) using that(2) by (rule collectPath_only_truncated)
  show "messages (conversation r)
          = List.map_filter transformMessage (rev (collectPath nodes [] (map_of nodes cur)))"
    if "convertRawConversation raw = Some r \<and> mapping raw = Some nodes
          \<and> current_node raw = Some cur" for r
  proof -
    from that have some: "convertRawConversation raw = Some r" by simp
    from convertRawConversation_Some_mapping [OF this] that
    have "cur \<noteq> []" by auto
    then show ?thesis
      using convertRawConversation_messages [of raw nodes cur] that by simp
  qed
qed

theorem valid_chain_messages_in_order_witness:
  "validChain
     (map (\<lambda>n. (node_id n, n))
        [exampleNode ''n1'' None (Some (exampleMessage ''m1'' ''user'' 1600000000)),
         exampleNode ''n2'' (Some ''n1'') None,
         exampleNode ''n3'' (Some ''n2'') (Some (exampleMessage ''m3'' ''assistant'' 1600000050)),
         exampleNode ''n4'' (Some ''n1'') (Some (exampleMessage ''m4'' ''assistant'' 1600000020))])
     [exampleNode ''n3'' (Some ''n2'') (Some (exampleMessage ''m3'' ''assistant'' 1600000050)),
      exampleNode ''n2'' (Some ''n1'') None,
      exampleNode ''n1'' None (Some (exampleMessage ''m1'' ''user'' 1600000000))]
   \<and> map_option (\<lambda>r. map msg_id (messages (conversation r)))
        (convertRawConversation
           (exampleGraph ''c'' ''n3'' None
              [exampleNode ''n1'' None (Some (exampleMessage ''m1'' ''user'' 1600000000)),
               exampleNode ''n2'' (Some ''n1'') None,
               exampleNode ''n3'' (Some ''n2'') (Some (exampleMessage ''m3'' ''assistant'' 1600000050)),
               exampleNode ''n4'' (Some ''n1'') (Some (exampleMessage ''m4'' ''assistant'' 1600000020))]))
      = Some [''m1'', ''m3'']"
  using valid_chain_messages_in_order
    [of "exampleGraph ''c'' ''n3'' None
              [exampleNode ''n1'' None (Some (exampleMessage ''m1'' ''user'' 1600000000)),
               exampleNode ''n2'' (Some ''n1'') None,
               exampleNode ''n3'' (Some ''n2'') (Some (exampleMessage ''m3'' ''assistant'' 1600000050)),
               exampleNode ''n4'' (Some ''n1'') (Some (exampleMessage ''m4'' ''assistant'' 1600000020))]"
        "map (\<lambda>n. (node_id n, n))
          [exampleNode ''n1'' None (Some (exampleMessage ''m1'' ''user'' 1600000000)),
           exampleNode ''n2'' (Some ''n1'') None,
           exampleNode ''n3'' (Some ''n2'') (Some (exampleMessage ''m3'' ''assistant'' 1600000050)),
           exampleNode ''n4'' (Some ''n1'') (Some (exampleMessage ''m4'' ''assistant'' 1600000020))]"
        "''n3''"
        "exampleNode ''n3'' (Some ''n2'') (Some (exampleMessage ''m3'' ''assistant'' 1600000050))"
        "[exampleNode ''n2'' (Some ''n1'') None,
          exampleNode ''n1'' None (Some (exampleMessage ''m1'' ''user'' 1600000000))]"
        3]
  by (simp add: exampleGraph_def exampleNode_def exampleMessage_def parentOf_def isRoot_def
      transformMessage_def split: option.splits)

text \<open>
  A missing parent and a cycle: the path keeps the nodes collected before the stop, and
  the conversion gives their messages; from a current node that is not in the mapping
  the path is empty.
\<close>

theorem traversal_visits_each_id_once_witness:
  "collectPath (keyed exampleOrphan) [] (map_of (keyed exampleOrphan) ''n2'')
     = [exampleOrphan ! 1, exampleOrphan ! 0]
   \<and> map msg_id (messages (conversation
        (the (convertRawConversation (exampleGraph ''c'' ''n2'' None exampleOrphan)))))
     = [''m1'', ''m2'']
   \<and> collectPath (keyed exampleCycle) [] (map_of (keyed exampleCycle) ''b'')
     = [exampleCycle ! 1, exampleCycle ! 0]
   \<and> map msg_id (messages (conversation
        (the (convertRawConversation (exampleGraph ''c'' ''b'' None exampleCycle)))))
     = [''ma'', ''mb'']
   \<and> collectPath (keyed exampleOrphan) [] (map_of (keyed exampleOrphan) ''gone'') = []"
proof -
  let ?orphan = "exampleGraph ''c'' ''n2'' None exampleOrphan"
  let ?cycle = "exampleGraph ''c'' ''b'' None exampleCycle"
  have start:
    "map_of (keyed exampleOrphan) ''n2'' = Some (exampleOrphan ! 1)"
    "map_of (keyed exampleCycle) ''b'' = Some (exampleCycle ! 1)"
    "map_of (keyed exampleOrphan) ''gone'' = None"
    by code_simp+
  have stated:
    "truncatedPath (keyed exampleOrphan) (exampleOrphan ! 1) [exampleOrphan ! 1, exampleOrphan ! 0]"
    "truncatedPath (keyed exampleCycle) (exampleCycle ! 1) [exampleCycle ! 1, exampleCycle ! 0]"
    by code_simp+
  have converted:
    "convertRawConversation ?orphan = Some (the (convertRawConversation ?orphan))
     \<and> mapping ?orphan = Some (keyed exampleOrphan) \<and> current_node ?orphan = Some ''n2''"
    "convertRawConversation ?cycle = Some (the (convertRawConversation ?cycle))
     \<and> mapping ?cycle = Some (keyed exampleCycle) \<and> current_node ?cycle = Some ''b''"
    by code_simp+
  have messages:
    "map msg_id (List.map_filter transformMessage (rev [exampleOrphan ! 1, exampleOrphan ! 0]))
       = [''m1'', ''m2'']"
    "map msg_id (List.map_filter transformMessage (rev [exampleCycle ! 1, exampleCycle ! 0]))
       = [''ma'', ''mb'']"
    by code_simp+
  note orphan = traversal_visits_each_id_once [of "keyed exampleOrphan" "''n2''" ?orphan]
  note cycle = traversal_visits_each_id_once [of "keyed exampleCycle" "''b''" ?cycle]
  note absent = traversal_visits_each_id_once [of "keyed exampleOrphan" "''gone''" ?orphan]
  have path1: "collectPath (keyed exampleOrphan) [] (map_of (keyed exampleOrphan) ''n2'')
      = [exampleOrphan ! 1, exampleOrphan ! 0]"
    using orphan start(1) stated(1) by metis
  have path2: "collectPath (keyed exampleCycle) [] (map_of (keyed exampleCycle) ''b'')
      = [exampleCycle ! 1, exampleCycle ! 0]"
    using cycle start(2) stated(2) by metis
  have msgs1: "messages (conversation (the (convertRawConversation ?orphan)))
      = List.map_filter transformMessage (rev [exampleOrphan ! 1, exampleOrphan ! 0])"
    using orphan converted(1) unfolding path1 by blast
  have msgs2: "messages (conversation (the (convertRawConversation ?cycle)))
      = List.map_filter transformMessage (rev [exampleCycle ! 1, exampleCycle ! 0])"
    using cycle converted(2) unfolding path2 by blast
  have path3: "collectPath (keyed exampleOrphan) [] (map_of (keyed exampleOrphan) ''gone'') = []"
    using absent start(3) by blast
  show ?thesis
    unfolding msgs1 msgs2 messages using path1 path2 path3 by blast
qed

text \<open>
  C7 does not hold of the code. \<open>lastMessageTs\<close> starts as the graph's raw time (here
  \<open>1700000000\<close>, in seconds), while a message's time is compared with it after it has been
  normalised to milliseconds (\<open>1600000000000\<close>): the message wins, and the result is the
  message's time, although the graph's time is the later one.
\<close>

theorem last_message_time_compares_mixed_units:
  "map_option (\<lambda>r. last_message_time (conversation r))
     (convertRawConversation
        (exampleGraph ''c'' ''n1'' (Some 1700000000)
           [exampleNode ''n1'' None (Some (exampleMessage ''m1'' ''user'' 1600000000))]))
     = Some 1600000000000
   \<and> statedLastMessageTime
        (exampleGraph ''c'' ''n1'' (Some 1700000000)
           [exampleNode ''n1'' None (Some (exampleMessage ''m1'' ''user'' 1600000000))])
     = 1700000000000"
  by (simp add: exampleGraph_def exampleNode_def exampleMessage_def parentOf_def
      collectPath_Some convertRawConversation_def convertStep_def transformMessage_def
      orElse_def roleOf_def normalizeOptionalMs_def normalizeMs_def statedLastMessageTime_def
      List.map_filter_simps)

section \<open>Properties of the DatasetReconciler\<close>

lemma shouldReplace_iff:
  "shouldReplace current incoming \<longleftrightarrow>
     sum_last_message_time (summary current) < sum_last_message_time (summary incoming)
     \<or> (sum_last_message_time (summary current) = sum_last_message_time (summary incoming)
         \<and> (orElse (payload_mappingNodeCount current) 0 < orElse (payload_mappingNodeCount incoming) 0
             \<or> (orElse (payload_mappingNodeCount current) 0 = orElse (payload_mappingNodeCount incoming) 0
                 \<and> importOrder current < importOrder incoming)))"
  by (auto simp: shouldReplace_def)

lemma isNewerSummary_iff:
  "isNewerSummary incoming (Some e) \<longleftrightarrow>
     sum_last_message_time e < sum_last_message_time incoming
     \<or> (sum_last_message_time e = sum_last_message_time incoming
         \<and> orElse (mapping_node_count e) 0 < orElse (mapping_node_count incoming) 0)"
  by (auto simp: isNewerSummary_def)

text \<open>
  C1, amended. In the directory importer and inside a batch of the browser
  (\<open>upsertPayload\<close>, which decides with \<open>shouldReplace\<close>), an incoming payload whose id has
  no match is added, and one with a match replaces it exactly when it is newer in the
  order: greater last message time; on equal time, greater node count; on equal time and
  count, later import order. No other entry changes. In the browser's reconciliation
  against the local index (\<open>conversationsToProcess\<close>, which decides with
  \<open>isNewerSummary\<close>), a payload without match is kept, and one with a match is kept exactly
  when its time is greater, or its time is equal and its node count greater: there is no
  third level, and on a full tie the existing conversation stays.
\<close>

theorem upsert_replaces_exactly_when_newer:
  "(map_of m (conv_id (payload_conversation incoming)) = None \<longrightarrow>
      map_of (upsertPayload m incoming) (conv_id (payload_conversation incoming)) = Some incoming)
   \<and> (map_of m (conv_id (payload_conversation incoming)) = Some current \<longrightarrow>
        map_of (upsertPayload m incoming) (conv_id (payload_conversation incoming))
          = Some (if shouldReplace current incoming then incoming else current))
   \<and> (shouldReplace current incoming \<longleftrightarrow>
        sum_last_message_time (summary current) < sum_last_message_time (summary incoming)
        \<or> (sum_last_message_time (summary current) = sum_last_message_time (summary incoming)
            \<and> (orElse (payload_mappingNodeCount current) 0 < orElse (payload_mappingNodeCount incoming) 0
                \<or> (orElse (payload_mappingNodeCount current) 0 = orElse (payload_mappingNodeCount incoming) 0
                    \<and> importOrder current < importOrder incoming))))
   \<and> (\<forall>k. k \<noteq> conv_id (payload_conversation incoming) \<longrightarrow>
          map_of (upsertPayload m incoming) k = map_of m k)
   \<and> isNewerSummary (summary incoming) None
   \<and> (isNewerSummary (summary incoming) (Some existing) \<longleftrightarrow>
        sum_last_message_time existing < sum_last_message_time (summary incoming)
        \<or> (sum_last_message_time existing = sum_last_message_time (summary incoming)
            \<and> orElse (mapping_node_count existing) 0 < orElse (mapping_node_count (summary incoming)) 0))
   \<and> conversationsToProcess Upsert bundle serverIndex localIndex
        = filter (\<lambda>p. isNewerSummary (summary p)
                          (map_of (rev (map (\<lambda>e. (sum_id e, e)) localIndex)) (sum_id (summary p))))
            bundle"
proof (intro conjI)
  show "map_of m (conv_id (payload_conversation incoming)) = None \<longrightarrow>
      map_of (upsertPayload m incoming) (conv_id (payload_conversation incoming)) = Some incoming"
    by (simp add: upsertPayload_def AList.update_conv')
  show "map_of m (conv_id (payload_conversation incoming)) = Some current \<longrightarrow>
        map_of (upsertPayload m incoming) (conv_id (payload_conversation incoming))
          = Some (if shouldReplace current incoming then incoming else current)"
    by (simp add: upsertPayload_def AList.update_conv')
  show "\<forall>k. k \<noteq> conv_id (payload_conversation incoming) \<longrightarrow>
          map_of (upsertPayload m incoming) k = map_of m k"
    by (simp add: upsertPayload_def Let_def AList.update_conv' split: option.splits)
  show "isNewerSummary (summary incoming) None"
    by (simp add: isNewerSummary_def)
  show "conversationsToProcess Upsert bundle serverIndex localIndex
        = filter (\<lambda>p. isNewerSummary (summary p)
                          (map_of (rev (map (\<lambda>e. (sum_id e, e)) localIndex)) (sum_id (summary p))))
            bundle"
    by (simp add: conversationsToProcess_def)
qed (rule shouldReplace_iff isNewerSummary_iff)+

text \<open>
  C1, as the claim states it, fails for the browser: with equal time and equal node count
  the payload ingested later replaces the existing one under \<open>shouldReplace\<close>, but
  \<open>isNewerSummary\<close> rejects it and the browser keeps the existing conversation.
\<close>

theorem browser_upsert_keeps_existing_on_tie:
  "shouldReplace (examplePayload ''c'' 200 5 0) (examplePayload ''c'' 200 5 1)
   \<and> \<not> isNewerSummary (summary (examplePayload ''c'' 200 5 1))
         (Some (summary (examplePayload ''c'' 200 5 0)))
   \<and> conversationsToProcess Upsert [examplePayload ''c'' 200 5 1] []
        [summary (examplePayload ''c'' 200 5 0)] = []"
  by (simp add: shouldReplace_def isNewerSummary_def conversationsToProcess_def examplePayload_def
      orElse_def)

theorem upsert_replaces_exactly_when_newer_witness:
  "map_of (upsertPayload [] (examplePayload ''c'' 200 5 0)) ''c'' = Some (examplePayload ''c'' 200 5 0)
   \<and> map_of (upsertPayload [(''c'', examplePayload ''c'' 200 5 0)] (examplePayload ''c'' 200 7 1)) ''c''
       = Some (examplePayload ''c'' 200 7 1)
   \<and> map_of (upsertPayload [(''c'', examplePayload ''c'' 300 5 0)] (examplePayload ''c'' 200 99 1)) ''c''
       = Some (examplePayload ''c'' 300 5 0)
   \<and> map_of (upsertPayload [(''c'', examplePayload ''c'' 300 5 0), (''d'', examplePayload ''d'' 1 1 1)]
               (examplePayload ''c'' 200 99 2)) ''d''
       = Some (examplePayload ''d'' 1 1 1)
   \<and> isNewerSummary (summary (examplePayload ''c'' 200 7 1)) (Some (summary (examplePayload ''c'' 200 5 0)))"
  using
    upsert_replaces_exactly_when_newer
      [of "[]" "examplePayload ''c'' 200 5 0" "examplePayload ''c'' 200 5 0"
          "summary (examplePayload ''c'' 200 5 0)" "[]" "[]" "[]"]
    upsert_replaces_exactly_when_newer
      [of "[(''c'', examplePayload ''c'' 200 5 0)]" "examplePayload ''c'' 200 7 1"
          "examplePayload ''c'' 200 5 0" "summary (examplePayload ''c'' 200 5 0)" "[]" "[]" "[]"]
    upsert_replaces_exactly_when_newer
      [of "[(''c'', examplePayload ''c'' 300 5 0), (''d'', examplePayload ''d'' 1 1 1)]"
          "examplePayload ''c'' 200 99 2"
          "examplePayload ''c'' 300 5 0" "summary (examplePayload ''c'' 300 5 0)" "[]" "[]" "[]"]
  by (simp add: examplePayload_def upsertPayload_def shouldReplace_def isNewerSummary_def orElse_def
      Let_def)

section \<open>Properties of the search\<close>
















section \<open>Properties of the ArchiveIngestor\<close>






















section \<open>Properties of the directory importer\<close>

lemma set_update_subset: "set (AList.update k v al) \<subseteq> insert (k, v) (set al)"
  by (induction al) auto

lemma wellKeyed_update:
  assumes "wellKeyed m" "conv_id (payload_conversation p) = k" "sum_id (summary p) = k"
    "isSafeConversationId k"
  shows "wellKeyed (AList.update k p m)"
  using assms set_update_subset [of k p m]
  unfolding wellKeyed_def by (auto simp: AList.distinct_update)

lemma keys_update: "fst ` set (AList.update k v al) = insert k (fst ` set al)"
  by (simp add: AList.dom_update)

lemma wellKeyed_upsertPayload:
  assumes "wellKeyed m" "sum_id (summary p) = conv_id (payload_conversation p)"
    "isSafeConversationId (conv_id (payload_conversation p))"
  shows "wellKeyed (upsertPayload m p)"
  using assms by (auto simp: upsertPayload_def Let_def wellKeyed_update split: option.splits)

lemma keys_upsertPayload:
  "fst ` set (upsertPayload m p) = insert (conv_id (payload_conversation p)) (fst ` set m)"
proof (cases "map_of m (conv_id (payload_conversation p))")
  case None
  then show ?thesis by (simp add: upsertPayload_def keys_update)
next
  case (Some e)
  then have "conv_id (payload_conversation p) \<in> fst ` set m"
    by (auto dest!: map_of_SomeD intro: image_eqI [where x = "(a, b)" for a b])
  then show ?thesis using Some by (auto simp: upsertPayload_def keys_update)
qed

lemma importConversation_upsert:
  assumes "mode \<noteq> Clone"
  shows "fst ` set (merged (importConversation mode st raw)) = fst ` set (merged st) \<union> incomingIds raw"
    and "wellKeyed (merged st) \<Longrightarrow> wellKeyed (merged (importConversation mode st raw))"
proof -
  show "fst ` set (merged (importConversation mode st raw)) = fst ` set (merged st) \<union> incomingIds raw"
    using assms
    by (auto simp: importConversation_def incomingIds_def Let_def keys_upsertPayload buildPayload_def
        split: option.splits)
  show "wellKeyed (merged (importConversation mode st raw))" if "wellKeyed (merged st)"
    using assms that
    by (auto simp: importConversation_def Let_def buildPayload_def intro!: wellKeyed_upsertPayload
        split: option.splits)
qed

lemma importConversations_upsert:
  assumes "mode \<noteq> Clone"
  shows "fst ` set (merged (foldl (importConversation mode) st raws))
           = fst ` set (merged st) \<union> \<Union>(incomingIds ` set raws)"
    and "wellKeyed (merged st) \<Longrightarrow> wellKeyed (merged (foldl (importConversation mode) st raws))"
proof -
  show "fst ` set (merged (foldl (importConversation mode) st raws))
           = fst ` set (merged st) \<union> \<Union>(incomingIds ` set raws)"
  proof (induction raws arbitrary: st)
    case Nil
    then show ?case by simp
  next
    case (Cons r rs)
    show ?case
      using Cons [of "importConversation mode st r"] importConversation_upsert(1) [OF assms, of st r]
      by auto
  qed
  show "wellKeyed (merged (foldl (importConversation mode) st raws))" if "wellKeyed (merged st)"
    using that
  proof (induction raws arbitrary: st)
    case Nil
    then show ?case by simp
  next
    case (Cons r rs)
    show ?case
      using Cons.IH [OF importConversation_upsert(2) [OF assms Cons.prems, of r]] by simp
  qed
qed

lemma importSources_upsert:
  assumes "mode \<noteq> Clone" and "importSources lib mode st sources = Inr final"
  shows "fst ` set (merged final) = fst ` set (merged st) \<union> batchIds lib sources"
    and "wellKeyed (merged st) \<Longrightarrow> wellKeyed (merged final)"
proof -
  show "fst ` set (merged final) = fst ` set (merged st) \<union> batchIds lib sources"
    using assms(2)
  proof (induction sources arbitrary: st)
    case Nil
    then show ?case by (simp add: batchIds_def)
  next
    case (Cons s rest)
    then obtain cs where cs: "loadSource lib s = Inr cs"
      by (cases "loadSource lib s") auto
    then have run: "importSources lib mode (foldl (importConversation mode) st cs) rest = Inr final"
      using Cons.prems by simp
    have "fst ` set (merged final)
            = fst ` set (merged (foldl (importConversation mode) st cs)) \<union> batchIds lib rest"
      using Cons.IH [OF run] .
    then show ?case
      using importConversations_upsert(1) [OF assms(1), of st cs] cs by (auto simp: batchIds_def)
  qed
  show "wellKeyed (merged final)" if "wellKeyed (merged st)"
    using assms(2) that
  proof (induction sources arbitrary: st)
    case Nil
    then show ?case by simp
  next
    case (Cons s rest)
    then obtain cs where cs: "loadSource lib s = Inr cs"
      by (cases "loadSource lib s") auto
    then have run: "importSources lib mode (foldl (importConversation mode) st cs) rest = Inr final"
      using Cons.prems by simp
    show ?case
      using Cons.IH [OF run importConversations_upsert(2) [OF assms(1) Cons.prems(2), of cs]] .
  qed
qed

lemma importSources_succeeds_alike:
  "importSources lib mode st sources = Inr final \<Longrightarrow>
     \<exists>final'. importSources lib mode' st' sources = Inr final'"
proof (induction sources arbitrary: st st')
  case Nil
  then show ?case by simp
next
  case (Cons s rest)
  then obtain cs where cs: "loadSource lib s = Inr cs"
    by (cases "loadSource lib s") auto
  then have "importSources lib mode (foldl (importConversation mode) st cs) rest = Inr final"
    using Cons.prems by simp
  from Cons.IH [OF this, of "foldl (importConversation mode') st' cs"]
  show ?case using cs by simp
qed


lemma loadExistingDataset_keys:
  "fst ` set (loadExistingDataset ds)
     = {sum_id s | s. s \<in> set (orElse (summariesFile ds) [])
                     \<and> map_of (conversationFiles ds) (sum_id s) \<noteq> None}"
proof -
  define step where
    "step = (\<lambda>payloads s.
               case map_of (conversationFiles ds) (sum_id s) of
                 None \<Rightarrow> payloads
               | Some c \<Rightarrow>
                   AList.update (sum_id s)
                     \<lparr> summary = s, payload_conversation = c,
                       payload_mappingNodeCount = Some (orElse (mapping_node_count s) 0),
                       importOrder = 0 \<rparr> payloads)"
  have "fst ` set (foldl step acc ss)
          = fst ` set acc \<union> {sum_id s | s. s \<in> set ss
                                     \<and> map_of (conversationFiles ds) (sum_id s) \<noteq> None}" for acc ss
  proof (induction ss arbitrary: acc)
    case Nil
    then show ?case by simp
  next
    case (Cons s ss)
    have "fst ` set (step acc s)
            = fst ` set acc \<union> (if map_of (conversationFiles ds) (sum_id s) \<noteq> None
                                 then {sum_id s} else {})"
      by (auto simp: step_def keys_update split: option.splits)
    then show ?case using Cons [of "step acc s"] by auto
  qed
  from this [of "[]"] show ?thesis
    by (cases "summariesFile ds") (simp_all add: loadExistingDataset_def step_def orElse_def)
qed

lemma loadExistingDataset_wellKeyed:
  assumes "datasetConsistent ds"
  shows "wellKeyed (loadExistingDataset ds)"
proof -
  define step where
    "step = (\<lambda>payloads s.
               case map_of (conversationFiles ds) (sum_id s) of
                 None \<Rightarrow> payloads
               | Some c \<Rightarrow>
                   AList.update (sum_id s)
                     \<lparr> summary = s, payload_conversation = c,
                       payload_mappingNodeCount = Some (orElse (mapping_node_count s) 0),
                       importOrder = 0 \<rparr> payloads)"
  have one: "wellKeyed (step acc s)" if "wellKeyed acc" for acc s
  proof (cases "map_of (conversationFiles ds) (sum_id s)")
    case None
    then show ?thesis using that by (simp add: step_def)
  next
    case (Some c)
    then have "conv_id c = sum_id s" "isSafeConversationId (sum_id s)"
      using assms by (auto simp: datasetConsistent_def)
    then show ?thesis using Some that by (simp add: step_def wellKeyed_update)
  qed
  have "wellKeyed (foldl step acc ss)" if "wellKeyed acc" for acc ss
    using that by (induction ss arbitrary: acc) (simp_all add: one)
  from this [of "[]"] show ?thesis
    by (cases "summariesFile ds") (simp_all add: loadExistingDataset_def step_def wellKeyed_def)
qed

lemma seedExisting_keys:
  "fst ` set (merged (foldl seedExisting st ps))
     = fst ` set (merged st) \<union> (\<lambda>p. conv_id (payload_conversation p)) ` set ps"
proof (induction ps arbitrary: st)
  case Nil
  then show ?case by simp
next
  case (Cons p ps)
  show ?case
    using Cons [of "seedExisting st p"] by (auto simp: seedExisting_def keys_update)
qed

lemma seedExisting_wellKeyed:
  assumes "wellKeyed (merged st)"
    and "\<forall>p \<in> set ps. sum_id (summary p) = conv_id (payload_conversation p)
                       \<and> isSafeConversationId (conv_id (payload_conversation p))"
  shows "wellKeyed (merged (foldl seedExisting st ps))"
  using assms
proof (induction ps arbitrary: st)
  case Nil
  then show ?case by simp
next
  case (Cons p ps)
  have "wellKeyed (merged (seedExisting st p))"
    using Cons.prems by (simp add: seedExisting_def wellKeyed_update)
  then show ?case using Cons.IH [of "seedExisting st p"] Cons.prems(2) by simp
qed

lemma startImport_upsert:
  assumes "datasetConsistent ds"
  shows "fst ` set (merged (startImport Upsert ds)) = fst ` set (loadExistingDataset ds)"
    and "wellKeyed (merged (startImport Upsert ds))"
proof -
  have wk: "wellKeyed (loadExistingDataset ds)"
    using assms by (rule loadExistingDataset_wellKeyed)
  then have each: "\<forall>p \<in> set (map snd (loadExistingDataset ds)).
      sum_id (summary p) = conv_id (payload_conversation p)
      \<and> isSafeConversationId (conv_id (payload_conversation p))"
    by (auto simp: wellKeyed_def)
  have ids: "(\<lambda>p. conv_id (payload_conversation p)) ` set (map snd (loadExistingDataset ds))
               = fst ` set (loadExistingDataset ds)"
    using wk by (force simp: wellKeyed_def)
  show "fst ` set (merged (startImport Upsert ds)) = fst ` set (loadExistingDataset ds)"
    using ids by (simp add: startImport_def seedExisting_keys)
  have "wellKeyed (merged \<lparr> merged = [], cloneTracker = Map.empty, importOrderCounter = 0,
                     warnings = [] \<rparr>)"
    by (simp add: wellKeyed_def)
  from seedExisting_wellKeyed [OF this each]
  show "wellKeyed (merged (startImport Upsert ds))"
    by (simp add: startImport_def)
qed

lemma startImport_replace:
  "merged (startImport Replace ds) = []"
  by (simp add: startImport_def)

lemma writeDataset_files:
  "(\<forall>(k, c) \<in> set (conversationFiles (writeDataset m)). conv_id c = k \<and> isSafeConversationId k)
   \<and> fst ` set (conversationFiles (writeDataset m))
       = {conv_id (payload_conversation p) | p. p \<in> snd ` set m
            \<and> isSafeConversationId (conv_id (payload_conversation p))}"
proof -
  define step where
    "step = (\<lambda>files (entry :: string \<times> ConversationPayload).
                  if isSafeConversationId (conv_id (payload_conversation (snd entry)))
                  then AList.update (conv_id (payload_conversation (snd entry)))
                         (payload_conversation (snd entry)) files
                  else files)"
  have "(\<forall>(k, c) \<in> set acc. conv_id c = k \<and> isSafeConversationId k) \<longrightarrow>
        (\<forall>(k, c) \<in> set (foldl step acc es). conv_id c = k \<and> isSafeConversationId k)
        \<and> fst ` set (foldl step acc es)
            = fst ` set acc \<union> {conv_id (payload_conversation p) | p. p \<in> snd ` set es
                 \<and> isSafeConversationId (conv_id (payload_conversation p))}" for acc es
  proof (induction es arbitrary: acc)
    case Nil
    then show ?case by simp
  next
    case (Cons e es)
    show ?case
    proof
      assume inv: "\<forall>(k, c) \<in> set acc. conv_id c = k \<and> isSafeConversationId k"
      have inv': "\<forall>(k, c) \<in> set (step acc e). conv_id c = k \<and> isSafeConversationId k"
        using inv set_update_subset [of "conv_id (payload_conversation (snd e))"
            "payload_conversation (snd e)" acc]
        by (auto simp: step_def)
      have keys: "fst ` set (step acc e)
            = fst ` set acc \<union> (if isSafeConversationId (conv_id (payload_conversation (snd e)))
                                 then {conv_id (payload_conversation (snd e))} else {})"
        by (simp add: step_def keys_update)
      show "(\<forall>(k, c) \<in> set (foldl step acc (e # es)). conv_id c = k \<and> isSafeConversationId k)
        \<and> fst ` set (foldl step acc (e # es))
            = fst ` set acc \<union> {conv_id (payload_conversation p) | p. p \<in> snd ` set (e # es)
                 \<and> isSafeConversationId (conv_id (payload_conversation p))}"
        using Cons [of "step acc e"] inv' keys by auto
    qed
  qed
  from this [of "[]" m] show ?thesis
    by (simp add: writeDataset_def step_def)
qed

lemma writeDataset_consistent: "datasetConsistent (writeDataset m)"
  unfolding datasetConsistent_def
proof (intro allI impI)
  fix k c
  assume "map_of (conversationFiles (writeDataset m)) k = Some c"
  then have "(k, c) \<in> set (conversationFiles (writeDataset m))"
    by (rule map_of_SomeD)
  moreover have "\<forall>(k, c) \<in> set (conversationFiles (writeDataset m)).
      conv_id c = k \<and> isSafeConversationId k"
    using writeDataset_files [of m] by (rule conjunct1)
  ultimately show "conv_id c = k \<and> isSafeConversationId k"
    by blast
qed

lemma writeDataset_ids:
  assumes "wellKeyed m"
  shows "datasetIds (writeDataset m) = map fst m"
proof -
  have "map (\<lambda>entry. sum_id (summary (snd entry))) m = map fst m"
  proof (rule map_cong [OF refl])
    fix entry
    assume "entry \<in> set m"
    then show "sum_id (summary (snd entry)) = fst entry"
      using assms unfolding wellKeyed_def by (cases entry) auto
  qed
  then show ?thesis
    by (simp add: datasetIds_def writeDataset_def orElse_def comp_def)
qed

lemma reload_keys:
  assumes "wellKeyed m"
  shows "fst ` set (loadExistingDataset (writeDataset m)) = fst ` set m"
proof -
  have each: "conv_id (payload_conversation p) = k \<and> sum_id (summary p) = k \<and> isSafeConversationId k"
    if "(k, p) \<in> set m" for k p
    using assms that unfolding wellKeyed_def by blast
  have "fst ` set (conversationFiles (writeDataset m))
         = {conv_id (payload_conversation p) | p. p \<in> snd ` set m
            \<and> isSafeConversationId (conv_id (payload_conversation p))}"
    using writeDataset_files [of m] by (rule conjunct2)
  also have "\<dots> = fst ` set m"
  proof (intro set_eqI iffI)
    fix k
    assume "k \<in> {conv_id (payload_conversation p) | p. p \<in> snd ` set m
            \<and> isSafeConversationId (conv_id (payload_conversation p))}"
    then obtain k' p where "(k', p) \<in> set m" "k = conv_id (payload_conversation p)" by auto
    then show "k \<in> fst ` set m" using each [of k' p] by (metis fst_conv image_eqI)
  next
    fix k
    assume "k \<in> fst ` set m"
    then obtain p where kp: "(k, p) \<in> set m" by auto
    then have "p \<in> snd ` set m" by (metis snd_conv image_eqI)
    then show "k \<in> {conv_id (payload_conversation p) | p. p \<in> snd ` set m
            \<and> isSafeConversationId (conv_id (payload_conversation p))}"
      using each [OF kp] by blast
  qed
  finally have files: "fst ` set (conversationFiles (writeDataset m)) = fst ` set m" .
  have present: "map_of (conversationFiles (writeDataset m)) k \<noteq> None \<longleftrightarrow> k \<in> fst ` set m" for k
    using files by (simp add: map_of_eq_None_iff)
  have summaries: "orElse (summariesFile (writeDataset m)) [] = map (\<lambda>entry. summary (snd entry)) m"
    by (simp add: writeDataset_def orElse_def)
  have "fst ` set (loadExistingDataset (writeDataset m))
          = {sum_id s | s. s \<in> set (map (\<lambda>entry. summary (snd entry)) m) \<and> sum_id s \<in> fst ` set m}"
    unfolding loadExistingDataset_keys present summaries ..
  also have "\<dots> = fst ` set m"
  proof (intro set_eqI iffI)
    fix k
    assume "k \<in> {sum_id s | s. s \<in> set (map (\<lambda>entry. summary (snd entry)) m) \<and> sum_id s \<in> fst ` set m}"
    then show "k \<in> fst ` set m" by auto
  next
    fix k
    assume "k \<in> fst ` set m"
    then obtain p where kp: "(k, p) \<in> set m" by auto
    then have "summary p \<in> set (map (\<lambda>entry. summary (snd entry)) m)"
      by (metis (mono_tags, lifting) image_eqI list.set_map snd_conv)
    moreover have "sum_id (summary p) = k" using each [OF kp] by simp
    ultimately show "k \<in> {sum_id s | s. s \<in> set (map (\<lambda>entry. summary (snd entry)) m)
                              \<and> sum_id s \<in> fst ` set m}"
      using \<open>k \<in> fst ` set m\<close> by blast
  qed
  finally show ?thesis .
qed


lemma importDatasets_upsert_result:
  assumes "datasetConsistent ds" and "importDatasets lib Upsert ds sources = Inr (ds', n)"
  shows "\<exists>m. ds' = writeDataset m \<and> n = length m \<and> wellKeyed m
           \<and> fst ` set m = fst ` set (loadExistingDataset ds) \<union> batchIds lib sources"
proof -
  from assms(2) obtain final
    where run: "importSources lib Upsert (startImport Upsert ds) sources = Inr final"
      and out: "ds' = writeDataset (merged final)" "n = length (merged final)"
    by (auto simp: importDatasets_def split: if_splits sum.splits)
  have "fst ` set (merged final)
          = fst ` set (merged (startImport Upsert ds)) \<union> batchIds lib sources"
    using importSources_upsert(1) [OF _ run] by simp
  moreover have "wellKeyed (merged final)"
    using importSources_upsert(2) [OF _ run startImport_upsert(2) [OF assms(1)]] by simp
  ultimately show ?thesis
    using out startImport_upsert(1) [OF assms(1)] by auto
qed

text \<open>
  C8, amended. For every consistent dataset (every conversation file in the directory of
  its own, safe id) and every batch of archives and directories: when an upsert import
  of the batch succeeds, writing a dataset with \<open>n1\<close> conversations, a second upsert
  import of the same batch into that dataset succeeds too and reports the same number,
  and the set of conversation ids it lists is the set after the first run. Every dataset
  \<open>writeDataset\<close> writes is consistent, the one of the first run among them, and so is
  the empty one.
\<close>

theorem upsert_twice_keeps_conversation_ids:
  assumes "datasetConsistent ds0"
    and "importDatasets lib Upsert ds0 sources = Inr (ds1, n1)"
  shows "datasetConsistent ds1 \<and> distinct (datasetIds ds1) \<and> length (datasetIds ds1) = n1
     \<and> (\<exists>ds2. importDatasets lib Upsert ds1 sources = Inr (ds2, n1)
            \<and> set (datasetIds ds2) = set (datasetIds ds1)
            \<and> distinct (datasetIds ds2))"
proof -
  from importDatasets_upsert_result [OF assms]
  obtain m1 where m1: "ds1 = writeDataset m1" "n1 = length m1" "wellKeyed m1"
    and k1: "fst ` set m1 = fst ` set (loadExistingDataset ds0) \<union> batchIds lib sources"
    by blast
  have c1: "datasetConsistent ds1"
    unfolding m1(1) by (rule writeDataset_consistent)
  have ids1: "datasetIds ds1 = map fst m1"
    unfolding m1(1) using m1(3) by (rule writeDataset_ids)
  from assms(2) obtain final1
    where run1: "importSources lib Upsert (startImport Upsert ds0) sources = Inr final1"
      and nonempty: "sources \<noteq> []"
    by (auto simp: importDatasets_def split: if_splits sum.splits)
  from importSources_succeeds_alike [OF run1, of Upsert "startImport Upsert ds1"]
  obtain final2
    where run2: "importSources lib Upsert (startImport Upsert ds1) sources = Inr final2"
    by blast
  define ds2 where "ds2 = writeDataset (merged final2)"
  have second: "importDatasets lib Upsert ds1 sources = Inr (ds2, length (merged final2))"
    using run2 nonempty by (simp add: importDatasets_def ds2_def)
  from importDatasets_upsert_result [OF c1 second]
  obtain m2 where m2: "ds2 = writeDataset m2" "length (merged final2) = length m2" "wellKeyed m2"
    and k2: "fst ` set m2 = fst ` set (loadExistingDataset ds1) \<union> batchIds lib sources"
    by blast
  have "fst ` set (loadExistingDataset ds1) = fst ` set m1"
    unfolding m1(1) using m1(3) by (rule reload_keys)
  then have keys: "fst ` set m2 = fst ` set m1"
    using k1 k2 by auto
  have ids2: "datasetIds ds2 = map fst m2"
    unfolding m2(1) using m2(3) by (rule writeDataset_ids)
  have d1: "distinct (map fst m1)" and d2: "distinct (map fst m2)"
    using m1(3) m2(3) by (simp_all add: wellKeyed_def)
  have "length m2 = card (fst ` set m2)"
    using d2 by (metis distinct_card length_map list.set_map)
  also have "\<dots> = card (fst ` set m1)"
    by (simp add: keys)
  also have "\<dots> = length m1"
    using d1 by (metis distinct_card length_map list.set_map)
  finally have len: "length m2 = n1"
    by (simp add: m1(2))
  have "importDatasets lib Upsert ds1 sources = Inr (ds2, n1)"
    using second m2(2) len by simp
  moreover have "set (datasetIds ds2) = set (datasetIds ds1)"
    using keys by (simp add: ids1 ids2)
  ultimately show ?thesis
    using c1 d1 d2 by (auto simp: ids1 ids2 m1(2))
qed

text \<open>
  C8, as the claim states it for every dataset state, fails for a dataset that is not
  consistent. The first run takes up the conversation on disk under its own id \<open>other\<close>
  and reports two conversations; it writes the file under \<open>other\<close> and the summary with
  the id \<open>k\<close>, so the second run finds no file for that summary and reports one. With the
  unsafe id \<open>a..b\<close> the first run counts the conversation and writes no file for it, and
  the second run reports one conversation too.
\<close>

theorem upsert_twice_loses_conversation_of_inconsistent_dataset:
  "\<not> datasetConsistent exampleStale
   \<and> map_sum id (\<lambda>r. (datasetIds (fst r), snd r))
        (importDatasets exampleLib Upsert exampleStale [ZipSource 1])
       = Inr ([''k'', ''c1''], 2)
   \<and> map_sum id (\<lambda>r. (datasetIds (fst r), snd r))
        (importDatasets exampleLib Upsert
           (fst (projr (importDatasets exampleLib Upsert exampleStale [ZipSource 1])))
           [ZipSource 1])
       = Inr ([''c1''], 1)
   \<and> \<not> datasetConsistent exampleUnsafe
   \<and> map_sum id (\<lambda>r. (datasetIds (fst r), snd r))
        (importDatasets exampleLib Upsert exampleUnsafe [ZipSource 1])
       = Inr ([''a..b'', ''c1''], 2)
   \<and> map_sum id (\<lambda>r. (datasetIds (fst r), snd r))
        (importDatasets exampleLib Upsert
           (fst (projr (importDatasets exampleLib Upsert exampleUnsafe [ZipSource 1])))
           [ZipSource 1])
       = Inr ([''c1''], 1)"
proof -
  have "map_of (conversationFiles exampleStale) ''k''
          = Some (payload_conversation (examplePayload ''other'' 1 1 0))
        \<and> conv_id (payload_conversation (examplePayload ''other'' 1 1 0)) \<noteq> ''k''"
    by code_simp
  then have stale: "\<not> datasetConsistent exampleStale"
    unfolding datasetConsistent_def by blast
  have "map_of (conversationFiles exampleUnsafe) ''a..b''
          = Some (payload_conversation (examplePayload ''a..b'' 1 1 0))
        \<and> \<not> isSafeConversationId ''a..b''"
    by code_simp
  then have unsafe: "\<not> datasetConsistent exampleUnsafe"
    unfolding datasetConsistent_def by blast
  have runs:
    "map_sum id (\<lambda>r. (datasetIds (fst r), snd r))
        (importDatasets exampleLib Upsert exampleStale [ZipSource 1])
       = Inr ([''k'', ''c1''], 2)
     \<and> map_sum id (\<lambda>r. (datasetIds (fst r), snd r))
        (importDatasets exampleLib Upsert
           (fst (projr (importDatasets exampleLib Upsert exampleStale [ZipSource 1])))
           [ZipSource 1])
       = Inr ([''c1''], 1)
     \<and> map_sum id (\<lambda>r. (datasetIds (fst r), snd r))
        (importDatasets exampleLib Upsert exampleUnsafe [ZipSource 1])
       = Inr ([''a..b'', ''c1''], 2)
     \<and> map_sum id (\<lambda>r. (datasetIds (fst r), snd r))
        (importDatasets exampleLib Upsert
           (fst (projr (importDatasets exampleLib Upsert exampleUnsafe [ZipSource 1])))
           [ZipSource 1])
       = Inr ([''c1''], 1)"
    by code_simp
  show ?thesis using stale unsafe runs by blast
qed

theorem upsert_twice_keeps_conversation_ids_witness:
  "datasetIds (fst (projr (importDatasets exampleLib Upsert emptyDataset exampleBatch))) = [''c1'']
   \<and> (\<exists>ds2. importDatasets exampleLib Upsert
               (fst (projr (importDatasets exampleLib Upsert emptyDataset exampleBatch)))
               exampleBatch = Inr (ds2, 1)
            \<and> set (datasetIds ds2) = set [''c1''])"
proof -
  have consistent: "datasetConsistent emptyDataset"
    by (simp add: datasetConsistent_def emptyDataset_def)
  have first: "importDatasets exampleLib Upsert emptyDataset exampleBatch
      = Inr (fst (projr (importDatasets exampleLib Upsert emptyDataset exampleBatch)), 1)"
    by code_simp
  have ids: "datasetIds (fst (projr (importDatasets exampleLib Upsert emptyDataset exampleBatch)))
      = [''c1'']"
    by code_simp
  show ?thesis
    using upsert_twice_keeps_conversation_ids [OF consistent first] unfolding ids by blast
qed

section \<open>Properties of clone reconciliation\<close>

lemma includesStr_iff: "includesStr s t = (\<exists>ps ss. s = ps @ t @ ss)"
proof (induction s)
  case Nil
  then show ?case by auto
next
  case (Cons c cs)
  show ?case
  proof
    assume "includesStr (c # cs) t"
    then consider "prefix t (c # cs)" | "includesStr cs t" by auto
    then show "\<exists>ps ss. c # cs = ps @ t @ ss"
    proof cases
      case 1
      then obtain ss where "c # cs = t @ ss" by (auto simp: prefix_def)
      then have "c # cs = [] @ t @ ss" by simp
      then show ?thesis by blast
    next
      case 2
      then obtain ps ss where "cs = ps @ t @ ss" using Cons.IH by blast
      then have "c # cs = (c # ps) @ t @ ss" by simp
      then show ?thesis by blast
    qed
  next
    assume "\<exists>ps ss. c # cs = ps @ t @ ss"
    then obtain ps ss where eq: "c # cs = ps @ t @ ss" by blast
    show "includesStr (c # cs) t"
    proof (cases ps)
      case Nil
      then have "prefix t (c # cs)" using eq by (simp add: prefix_def)
      then show ?thesis by simp
    next
      case (Cons q qs)
      then have "cs = qs @ t @ ss" using eq by simp
      then have "includesStr cs t" using Cons.IH by blast
      then show ?thesis by simp
    qed
  qed
qed

lemma includesStr_take: "includesStr (take n s) t \<Longrightarrow> includesStr s t"
proof -
  assume "includesStr (take n s) t"
  then obtain ps ss where "take n s = ps @ t @ ss" unfolding includesStr_iff by blast
  then have "s = ps @ t @ (ss @ drop n s)"
    using append_take_drop_id [of n s] by (metis append.assoc)
  then show ?thesis unfolding includesStr_iff by blast
qed

lemma hasLineTerminator_take: "hasLineTerminator (take n s) \<Longrightarrow> hasLineTerminator s"
  unfolding hasLineTerminator_def using includesStr_take by blast

lemma highestSuffix_snoc:
  "highestSuffix (ks @ [k]) b
     = (if baseOf k = b then max (highestSuffix ks b) (suffixOf k) else highestSuffix ks b)"
  by (simp add: highestSuffix_def)

lemma highestSuffix_ge:
  "k \<in> set ks \<Longrightarrow> baseOf k = b \<Longrightarrow> suffixOf k \<le> highestSuffix ks b"
proof (induction ks rule: rev_induct)
  case Nil
  then show ?case by simp
next
  case (snoc x xs)
  then show ?case by (auto simp: highestSuffix_snoc)
qed

lemma trackSuffix_agrees:
  assumes "trackerAgrees ks tracker"
  shows "trackerAgrees (ks @ [k]) (trackSuffix tracker k)"
  unfolding trackerAgrees_def
proof
  fix b
  have cur: "orElse (tracker c) 0 = highestSuffix ks c" for c
    using assms by (simp add: trackerAgrees_def)
  obtain base suffix where split: "splitCloneId k = (base, suffix)" by (cases "splitCloneId k")
  then have bs: "baseOf k = base" "suffixOf k = suffix" by (simp_all add: baseOf_def suffixOf_def)
  show "orElse (trackSuffix tracker k b) 0 = highestSuffix (ks @ [k]) b"
  proof (cases "suffix > orElse (tracker base) 0")
    case True
    then show ?thesis
      using cur [of b] cur [of base] split bs
      by (auto simp: trackSuffix_def highestSuffix_snoc orElse_def)
  next
    case False
    then show ?thesis
      using cur [of b] cur [of base] split bs
      by (auto simp: trackSuffix_def highestSuffix_snoc)
  qed
qed

lemma buildCloneTracker_agrees: "trackerAgrees ks (buildCloneTracker ks)"
proof (induction ks rule: rev_induct)
  case Nil
  then show ?case by (simp add: trackerAgrees_def buildCloneTracker_def highestSuffix_def orElse_def)
next
  case (snoc k ks)
  then show ?case
    using trackSuffix_agrees [of ks "buildCloneTracker ks" k] by (simp add: buildCloneTracker_def)
qed

lemma isDigit_v: "\<not> isDigit (CHR ''v'')"
  by (simp add: isDigit_def)

lemma trailing_digits:
  assumes "list_all isDigit ds"
  shows "rev (takeWhile isDigit (rev (b @ ''_v'' @ ds))) = ds"
proof -
  have "\<forall>c \<in> set (rev ds). isDigit c" using assms by (simp add: list_all_iff)
  then have "takeWhile isDigit (rev ds @ CHR ''v'' # CHR ''_'' # rev b) = rev ds"
    using takeWhile_append2 [of "rev ds" isDigit "CHR ''v'' # CHR ''_'' # rev b"]
    by (simp add: isDigit_v)
  then show ?thesis by simp
qed

lemma splitCloneId_versioned:
  assumes "ds \<noteq> []" "list_all isDigit ds" "\<not> hasLineTerminator b"
  shows "splitCloneId (b @ ''_v'' @ ds) = (b, parseDigits ds)"
  using assms trailing_digits [OF assms(2), of b]
  by (simp add: splitCloneId_def Let_def suffix_def)

lemma stripVersionSuffix_versioned:
  assumes "ds \<noteq> []" "list_all isDigit ds"
  shows "stripVersionSuffix (b @ ''_v'' @ ds) = b"
  using assms trailing_digits [OF assms(2), of b]
  by (simp add: stripVersionSuffix_def Let_def suffix_def)

lemma splitCloneId_candidate:
  "\<not> hasLineTerminator base \<Longrightarrow> splitCloneId (cloneCandidate base n) = (base, n)"
  using splitCloneId_versioned [OF digitsOfNat_nonempty digitsOfNat_digits, of base n]
  by (simp add: cloneCandidate_def parseDigits_digitsOfNat)

lemma baseOf_noLineBreak:
  assumes "noLineBreak i"
  shows "baseOf i = stripVersionSuffix i" and "\<not> hasLineTerminator (baseOf i)"
proof -
  have clean: "\<not> hasLineTerminator (take n i)" for n
    using assms hasLineTerminator_take [of n i] by (auto simp: noLineBreak_def)
  show "baseOf i = stripVersionSuffix i"
    using clean by (simp add: baseOf_def splitCloneId_def stripVersionSuffix_def Let_def)
  show "\<not> hasLineTerminator (baseOf i)"
    using assms clean
    by (simp add: baseOf_def splitCloneId_def Let_def noLineBreak_def)
qed

lemma nextFreeSuffix_fresh:
  "cloneCandidate base (nextFreeSuffix base used n) \<notin> set used"
proof (induction base used n rule: nextFreeSuffix.induct)
  case (1 base used n)
  then show ?case by (subst nextFreeSuffix.simps) simp
qed

lemma nextFreeSuffix_free:
  "cloneCandidate base n \<notin> set used \<Longrightarrow> nextFreeSuffix base used n = n"
  by (subst nextFreeSuffix.simps) simp


lemma local_new:
  "payloadId p \<notin> set used \<Longrightarrow>
     ensureClonePayloadIdForLocal p used tracker
       = (p, used @ [payloadId p], trackSuffix tracker (payloadId p))"
  by (simp add: ensureClonePayloadIdForLocal_def trackSuffix_def Let_def split: prod.splits)

lemma local_existing:
  assumes agrees: "trackerAgrees used tracker"
    and known: "payloadId p \<in> set used"
    and clean: "noLineBreak (payloadId p)"
  shows "ensureClonePayloadIdForLocal p used tracker
       = (clonePayloadWithId p
            (cloneCandidate (baseOf (payloadId p)) (Suc (highestSuffix used (baseOf (payloadId p))))),
          used @ [cloneCandidate (baseOf (payloadId p))
                    (Suc (highestSuffix used (baseOf (payloadId p))))],
          tracker(baseOf (payloadId p) \<mapsto> Suc (highestSuffix used (baseOf (payloadId p)))))"
proof -
  obtain b s where split: "splitCloneId (payloadId p) = (b, s)" by (cases "splitCloneId (payloadId p)")
  then have bs: "baseOf (payloadId p) = b" "suffixOf (payloadId p) = s"
    by (simp_all add: baseOf_def suffixOf_def)
  define h where "h = highestSuffix used b"
  have cur: "orElse (tracker b) 0 = h"
    using agrees by (simp add: trackerAgrees_def h_def)
  have "s \<le> h"
    using highestSuffix_ge [OF known bs(1)] bs(2) by (simp add: h_def)
  then have start: "max (orElse (tracker b) s) s = h"
    using cur by (cases "tracker b") (simp_all add: orElse_def)
  have cleanb: "\<not> hasLineTerminator b"
    using baseOf_noLineBreak(2) [OF clean] bs(1) by simp
  have free: "cloneCandidate b (Suc h) \<notin> set used"
  proof
    assume "cloneCandidate b (Suc h) \<in> set used"
    moreover have "baseOf (cloneCandidate b (Suc h)) = b" "suffixOf (cloneCandidate b (Suc h)) = Suc h"
      using splitCloneId_candidate [OF cleanb, of "Suc h"] by (simp_all add: baseOf_def suffixOf_def)
    ultimately have "Suc h \<le> highestSuffix used b"
      using highestSuffix_ge [of "cloneCandidate b (Suc h)" used b] by simp
    then show False by (simp add: h_def)
  qed
  have "nextFreeSuffix b used (max (orElse (tracker b) s) s + 1) = Suc h"
    using nextFreeSuffix_free [OF free] start by simp
  then show ?thesis
    using known split bs by (simp add: ensureClonePayloadIdForLocal_def Let_def h_def)
qed

lemma local_agrees:
  assumes agrees: "trackerAgrees used tracker" and clean: "noLineBreak (payloadId p)"
  shows "trackerAgrees (fst (localStep (used, tracker) p)) (snd (localStep (used, tracker) p))"
proof (cases "payloadId p \<in> set used")
  case False
  then show ?thesis
    using trackSuffix_agrees [OF agrees, of "payloadId p"] by (simp add: localStep_def local_new)
next
  case True
  define b where "b = baseOf (payloadId p)"
  define h where "h = highestSuffix used b"
  have cleanb: "\<not> hasLineTerminator b"
    using baseOf_noLineBreak(2) [OF clean] by (simp add: b_def)
  have cand: "baseOf (cloneCandidate b (Suc h)) = b" "suffixOf (cloneCandidate b (Suc h)) = Suc h"
    using splitCloneId_candidate [OF cleanb, of "Suc h"] by (simp_all add: baseOf_def suffixOf_def)
  have "trackerAgrees (used @ [cloneCandidate b (Suc h)]) (tracker(b \<mapsto> Suc h))"
    unfolding trackerAgrees_def
  proof
    fix c
    show "orElse ((tracker(b \<mapsto> Suc h)) c) 0 = highestSuffix (used @ [cloneCandidate b (Suc h)]) c"
    proof (cases "c = b")
      case True
      then show ?thesis using cand by (simp add: highestSuffix_snoc orElse_def h_def)
    next
      case False
      then show ?thesis using agrees cand by (simp add: highestSuffix_snoc trackerAgrees_def)
    qed
  qed
  then show ?thesis
    using local_existing [OF agrees True clean] by (simp add: localStep_def b_def h_def)
qed

lemma local_fresh:
  "payloadId p \<in> set used \<Longrightarrow>
     payloadId (fst (ensureClonePayloadIdForLocal p used tracker)) \<notin> set used"
  using nextFreeSuffix_fresh
  by (simp add: ensureClonePayloadIdForLocal_def Let_def clonePayloadWithId_def split: prod.splits)

lemma local_used:
  "fst (snd (ensureClonePayloadIdForLocal p used tracker))
     = used @ [payloadId (fst (ensureClonePayloadIdForLocal p used tracker))]"
  by (simp add: ensureClonePayloadIdForLocal_def Let_def clonePayloadWithId_def split: prod.splits)

lemma local_summary_id:
  "payloadId p \<in> set used \<Longrightarrow>
     sum_id (summary (fst (ensureClonePayloadIdForLocal p used tracker)))
       = payloadId (fst (ensureClonePayloadIdForLocal p used tracker))"
  by (simp add: ensureClonePayloadIdForLocal_def Let_def clonePayloadWithId_def split: prod.splits)

lemma server_local:
  "ensureClonePayloadId p m tracker
     = (fst (ensureClonePayloadIdForLocal p (map fst m) tracker),
        snd (snd (ensureClonePayloadIdForLocal p (map fst m) tracker)))"
  by (simp add: ensureClonePayloadId_def ensureClonePayloadIdForLocal_def Let_def
      map_of_eq_None_iff split: prod.splits)

lemma clonePayload_keys:
  "map fst (fst (clonePayload (m, tracker) p))
     = map fst m @ [payloadId (fst (ensureClonePayloadId p m tracker))]"
proof (cases "payloadId p \<in> set (map fst m)")
  case True
  then show ?thesis
    using local_fresh [OF True, of tracker]
    by (simp add: clonePayload_def server_local AList.update_keys)
next
  case False
  then show ?thesis
    by (simp add: clonePayload_def server_local local_new AList.update_keys)
qed

lemma clonePayload_step:
  "clonePayload (m, tracker) p = (m', tracker') \<Longrightarrow>
     localStep (map fst m, tracker) p = (map fst m', tracker')"
  using clonePayload_keys [of m tracker p] local_used [of p "map fst m" tracker]
  by (auto simp: localStep_def clonePayload_def server_local prod_eq_iff)


lemma localRun_agrees:
  "trackerAgrees (fst st) (snd st) \<Longrightarrow> \<forall>q \<in> set pre. noLineBreak (payloadId q) \<Longrightarrow>
     trackerAgrees (fst (foldl localStep st pre)) (snd (foldl localStep st pre))"
proof (induction pre arbitrary: st)
  case Nil
  then show ?case by simp
next
  case (Cons q rest)
  have "trackerAgrees (fst (localStep st q)) (snd (localStep st q))"
    using local_agrees [of "fst st" "snd st" q] Cons.prems by simp
  then show ?case using Cons.IH [of "localStep st q"] Cons.prems by simp
qed

lemma cloneRun_local:
  "foldl localStep (map fst m, tracker) pre
     = (map fst (fst (foldl clonePayload (m, tracker) pre)),
        snd (foldl clonePayload (m, tracker) pre))"
proof (induction pre arbitrary: m tracker)
  case Nil
  then show ?case by simp
next
  case (Cons q rest)
  obtain m' tracker' where step: "clonePayload (m, tracker) q = (m', tracker')"
    by (cases "clonePayload (m, tracker) q")
  show ?case
    using Cons.IH [of m' tracker'] clonePayload_step [OF step] step by simp
qed

lemma cloneAllForLocal_state:
  "cloneAllForLocal (pre @ [p]) used tracker
     = cloneAllForLocal pre used tracker
       @ [fst (ensureClonePayloadIdForLocal p (fst (foldl localStep (used, tracker) pre))
                 (snd (foldl localStep (used, tracker) pre)))]
   \<and> fst (foldl localStep (used, tracker) pre)
       = used @ map payloadId (cloneAllForLocal pre used tracker)"
proof (induction pre arbitrary: used tracker)
  case Nil
  show ?case by (simp split: prod.splits)
next
  case (Cons q rest)
  obtain q' used' tracker'
    where step: "ensureClonePayloadIdForLocal q used tracker = (q', used', tracker')"
    by (cases "ensureClonePayloadIdForLocal q used tracker")
  have used': "used' = used @ [payloadId q']"
    using local_used [of q used tracker] step by simp
  show ?case
    using Cons.IH [of used' tracker'] step used' by (simp add: localStep_def)
qed

lemma code_reading_is_stated:
  assumes "\<not> hasLineTerminator b"
  shows "(baseOf k = b) = (stripVersionSuffix k = b) \<and> (baseOf k = b \<longrightarrow> suffixOf k = versionOf k)"
proof -
  define ds where "ds = rev (takeWhile isDigit (rev k))"
  define front where "front = take (length k - length ds) k"
  define base where "base = take (length front - 2) front"
  have dirty: "hasLineTerminator base \<Longrightarrow> hasLineTerminator k"
    unfolding base_def front_def
    using hasLineTerminator_take [of "length (take (length k - length ds) k) - 2"
        "take (length k - length ds) k"]
      hasLineTerminator_take [of "length k - length ds" k]
    by blast
  have code: "splitCloneId k
      = (if ds \<noteq> [] \<and> suffix ''_v'' front \<and> \<not> hasLineTerminator base
         then (base, parseDigits ds) else (k, 1))"
    by (simp add: splitCloneId_def Let_def ds_def front_def base_def)
  have stated: "stripVersionSuffix k = (if ds \<noteq> [] \<and> suffix ''_v'' front then base else k)"
    "versionOf k = (if ds \<noteq> [] \<and> suffix ''_v'' front then parseDigits ds else 1)"
    by (simp_all add: stripVersionSuffix_def versionOf_def Let_def ds_def front_def base_def)
  show ?thesis
    using assms dirty unfolding baseOf_def suffixOf_def code stated by auto
qed

lemma highestSuffix_stated:
  assumes "\<not> hasLineTerminator b"
  shows "highestSuffix ks b = statedHighestSuffix ks b"
proof -
  have same: "filter (\<lambda>k. baseOf k = b) ks = filter (\<lambda>k. stripVersionSuffix k = b) ks"
    using code_reading_is_stated [OF assms] by (intro filter_cong) simp_all
  have maps: "map suffixOf (filter (\<lambda>k. stripVersionSuffix k = b) ks)
      = map versionOf (filter (\<lambda>k. stripVersionSuffix k = b) ks)"
    using code_reading_is_stated [OF assms] by (intro map_cong) simp_all
  show ?thesis unfolding highestSuffix_def statedHighestSuffix_def same maps by (rule refl)
qed

lemma local_next_version:
  assumes agrees: "trackerAgrees used tracker"
    and known: "payloadId p \<in> set used"
    and clean: "noLineBreak (payloadId p)"
  shows "payloadId (fst (ensureClonePayloadIdForLocal p used tracker))
       = stripVersionSuffix (payloadId p) @ ''_v''
         @ digitsOfNat (Suc (statedHighestSuffix used (stripVersionSuffix (payloadId p))))"
  using local_existing [OF agrees known clean] baseOf_noLineBreak [OF clean]
  by (simp add: highestSuffix_stated clonePayloadWithId_def cloneCandidate_def)


text \<open>
  Away from line terminators, and with every suffix below \<open>2^53\<close>, the clone rule holds as
  stated. A clone run starts from the dataset \<open>m0\<close> (in the browser: from the ids \<open>used0\<close>)
  with the tracker built from its ids, and has handled the payloads \<open>pre\<close>. If the id of
  the next payload \<open>p\<close> is already a key, \<open>p\<close> gets the id base, \<open>_v\<close>, n: base is its id
  with a trailing \<open>_v\<close> and digits stripped, and n is one more than the highest version
  among the keys with that base (a key without suffix has version 1). The summary carries
  the same id, the id is not among the keys, the directory importer appends it as a new
  key with the renamed payload, and every record that was there stays as it was.
\<close>

lemma clone_next_version_without_line_terminator:
  assumes "\<forall>q \<in> set pre. noLineBreak (payloadId q)" and "noLineBreak (payloadId p)"
    and "\<forall>k \<in> set (map fst (fst (clonePayload (cloneRun m0 pre) p))). versionOf k < 2 ^ 53"
    and "\<forall>k \<in> set (used0 @ map payloadId
            (cloneAllForLocal (pre @ [p]) used0 (buildCloneTracker used0))). versionOf k < 2 ^ 53"
  shows
    "(payloadId p \<in> set (map fst (fst (cloneRun m0 pre))) \<longrightarrow>
       (let m = fst (cloneRun m0 pre);
            p' = fst (ensureClonePayloadId p m (snd (cloneRun m0 pre)));
            m' = fst (clonePayload (cloneRun m0 pre) p)
        in payloadId p'
             = stripVersionSuffix (payloadId p) @ ''_v''
               @ digitsOfNat (Suc (statedHighestSuffix (map fst m) (stripVersionSuffix (payloadId p))))
         \<and> sum_id (summary p') = payloadId p'
         \<and> payloadId p' \<notin> set (map fst m)
         \<and> map fst m' = map fst m @ [payloadId p']
         \<and> map_of m' (payloadId p') = Some p'
         \<and> (\<forall>k \<in> set (map fst m). map_of m' k = map_of m k)))
   \<and> (let used = used0 @ map payloadId (cloneAllForLocal pre used0 (buildCloneTracker used0));
          p' = last (cloneAllForLocal (pre @ [p]) used0 (buildCloneTracker used0))
      in payloadId p \<in> set used \<longrightarrow>
           payloadId p'
             = stripVersionSuffix (payloadId p) @ ''_v''
               @ digitsOfNat (Suc (statedHighestSuffix used (stripVersionSuffix (payloadId p))))
         \<and> sum_id (summary p') = payloadId p'
         \<and> payloadId p' \<notin> set used)"
proof (intro conjI impI)
  define m where "m = fst (cloneRun m0 pre)"
  define tracker where "tracker = snd (cloneRun m0 pre)"
  define p' where "p' = fst (ensureClonePayloadId p m tracker)"
  define m' where "m' = fst (clonePayload (cloneRun m0 pre) p)"
  assume known: "payloadId p \<in> set (map fst (fst (cloneRun m0 pre)))"
  have run: "cloneRun m0 pre = (m, tracker)" by (simp add: m_def tracker_def)
  have "foldl localStep (map fst m0, buildCloneTracker (map fst m0)) pre = (map fst m, tracker)"
    using cloneRun_local [of m0 "buildCloneTracker (map fst m0)" pre]
    by (simp add: m_def tracker_def cloneRun_def)
  then have agrees: "trackerAgrees (map fst m) tracker"
    using localRun_agrees [of "(map fst m0, buildCloneTracker (map fst m0))" pre]
      buildCloneTracker_agrees [of "map fst m0"] assms(1) by simp
  have known': "payloadId p \<in> set (map fst m)" using known by (simp add: m_def)
  have local: "p' = fst (ensureClonePayloadIdForLocal p (map fst m) tracker)"
    by (simp add: p'_def server_local)
  have new_id: "payloadId p'
      = stripVersionSuffix (payloadId p) @ ''_v''
        @ digitsOfNat (Suc (statedHighestSuffix (map fst m) (stripVersionSuffix (payloadId p))))"
    unfolding local by (rule local_next_version [OF agrees known' assms(2)])
  have summary_id: "sum_id (summary p') = payloadId p'"
    unfolding local by (rule local_summary_id [OF known'])
  have fresh: "payloadId p' \<notin> set (map fst m)"
    unfolding local by (rule local_fresh [OF known'])
  have keys: "map fst m' = map fst m @ [payloadId p']"
    using clonePayload_keys [of m tracker p] by (simp add: m'_def run p'_def)
  have m': "m' = AList.update (payloadId p') p' m"
    by (simp add: m'_def run clonePayload_def p'_def split: prod.splits)
  have added: "map_of m' (payloadId p') = Some p'"
    by (simp add: m' AList.update_conv')
  have kept: "\<forall>k \<in> set (map fst m). map_of m' k = map_of m k"
  proof
    fix k
    assume "k \<in> set (map fst m)"
    then have "k \<noteq> payloadId p'" using fresh by blast
    then show "map_of m' k = map_of m k" by (simp add: m' AList.update_conv')
  qed
  show "let m = fst (cloneRun m0 pre);
            p' = fst (ensureClonePayloadId p m (snd (cloneRun m0 pre)));
            m' = fst (clonePayload (cloneRun m0 pre) p)
        in payloadId p'
             = stripVersionSuffix (payloadId p) @ ''_v''
               @ digitsOfNat (Suc (statedHighestSuffix (map fst m) (stripVersionSuffix (payloadId p))))
         \<and> sum_id (summary p') = payloadId p'
         \<and> payloadId p' \<notin> set (map fst m)
         \<and> map fst m' = map fst m @ [payloadId p']
         \<and> map_of m' (payloadId p') = Some p'
         \<and> (\<forall>k \<in> set (map fst m). map_of m' k = map_of m k)"
    using new_id summary_id fresh keys added kept
    unfolding Let_def m_def [symmetric] tracker_def [symmetric] p'_def [symmetric] m'_def [symmetric]
    by blast
next
  define st where "st = foldl localStep (used0, buildCloneTracker used0) pre"
  define q where "q = fst (ensureClonePayloadIdForLocal p (fst st) (snd st))"
  have agrees: "trackerAgrees (fst st) (snd st)"
    using localRun_agrees [of "(used0, buildCloneTracker used0)" pre]
      buildCloneTracker_agrees [of used0] assms(1) by (simp add: st_def)
  have used: "used0 @ map payloadId (cloneAllForLocal pre used0 (buildCloneTracker used0)) = fst st"
    using cloneAllForLocal_state [of pre p used0 "buildCloneTracker used0"] by (simp add: st_def)
  have out: "last (cloneAllForLocal (pre @ [p]) used0 (buildCloneTracker used0)) = q"
    using cloneAllForLocal_state [of pre p used0 "buildCloneTracker used0"]
    by (simp add: st_def q_def)
  have "payloadId p \<in> set (fst st) \<longrightarrow>
           payloadId q
             = stripVersionSuffix (payloadId p) @ ''_v''
               @ digitsOfNat (Suc (statedHighestSuffix (fst st) (stripVersionSuffix (payloadId p))))
         \<and> sum_id (summary q) = payloadId q
         \<and> payloadId q \<notin> set (fst st)"
    unfolding q_def
    using local_next_version [OF agrees _ assms(2)] local_summary_id [of p "fst st" "snd st"]
      local_fresh [of p "fst st" "snd st"]
    by blast
  then show "let used = used0 @ map payloadId (cloneAllForLocal pre used0 (buildCloneTracker used0));
          p' = last (cloneAllForLocal (pre @ [p]) used0 (buildCloneTracker used0))
      in payloadId p \<in> set used \<longrightarrow>
           payloadId p'
             = stripVersionSuffix (payloadId p) @ ''_v''
               @ digitsOfNat (Suc (statedHighestSuffix used (stripVersionSuffix (payloadId p))))
         \<and> sum_id (summary p') = payloadId p'
         \<and> payloadId p' \<notin> set used"
    unfolding Let_def used out .
qed


text \<open>
  Whatever the ids are, a clone step does not overwrite: the id it assigns to a payload
  whose id is taken is not among the keys, it is added last, and the records under the
  keys that were there stay as they were.
\<close>

lemma clone_never_overwrites:
  assumes "payloadId p \<in> set (map fst m)"
  shows "payloadId (fst (ensureClonePayloadId p m tracker)) \<notin> set (map fst m)"
    and "map fst (fst (clonePayload (m, tracker) p))
           = map fst m @ [payloadId (fst (ensureClonePayloadId p m tracker))]"
    and "\<forall>k \<in> set (map fst m). map_of (fst (clonePayload (m, tracker) p)) k = map_of m k"
proof -
  show fresh: "payloadId (fst (ensureClonePayloadId p m tracker)) \<notin> set (map fst m)"
    using local_fresh [OF assms, of tracker] by (simp add: server_local)
  show "map fst (fst (clonePayload (m, tracker) p))
           = map fst m @ [payloadId (fst (ensureClonePayloadId p m tracker))]"
    by (rule clonePayload_keys)
  show "\<forall>k \<in> set (map fst m). map_of (fst (clonePayload (m, tracker) p)) k = map_of m k"
  proof
    fix k
    assume "k \<in> set (map fst m)"
    then have "k \<noteq> payloadId (fst (ensureClonePayloadId p m tracker))" using fresh by blast
    then show "map_of (fst (clonePayload (m, tracker) p)) k = map_of m k"
      by (cases "ensureClonePayloadId p m tracker") (simp add: clonePayload_def AList.update_conv')
  qed
qed

text \<open>
  C2 does not hold of the code. The pattern \<open>/^(.*)_v(\d+)$/\<close> of \<open>splitCloneId\<close> has no
  \<open>s\<close> flag, so its dot does not match a line terminator: an id with a line feed before
  its \<open>_v2\<close> is not split and counts as its own base with suffix 1. With the id \<open>a\<close>, line
  feed, \<open>_v2\<close> in the dataset, the clone of a conversation with that id gets the id \<open>a\<close>,
  line feed, \<open>_v2_v2\<close>, in the directory importer and in the browser, where C2 gives
  \<open>a\<close>, line feed, \<open>_v3\<close>: the base with the suffix stripped and one more than the highest
  suffix 2. The same happens with the separator U+2028 in the place of the line feed. Two
  clone imports of an archive with a conversation of that id end with these two ids.
\<close>

theorem clone_of_id_with_line_feed_keeps_suffix:
  "payloadId (examplePayload lineFeedId 2 1 1)
     \<in> set (map fst (fst (cloneRun [(lineFeedId, examplePayload lineFeedId 1 1 0)] [])))
   \<and> payloadId (fst (ensureClonePayloadId (examplePayload lineFeedId 2 1 1)
        (fst (cloneRun [(lineFeedId, examplePayload lineFeedId 1 1 0)] []))
        (snd (cloneRun [(lineFeedId, examplePayload lineFeedId 1 1 0)] []))))
       = ''a'' @ [CHR 0x0A] @ ''_v2_v2''
   \<and> stripVersionSuffix (payloadId (examplePayload lineFeedId 2 1 1)) @ ''_v''
       @ digitsOfNat (Suc (statedHighestSuffix
           (map fst (fst (cloneRun [(lineFeedId, examplePayload lineFeedId 1 1 0)] [])))
           (stripVersionSuffix (payloadId (examplePayload lineFeedId 2 1 1)))))
       = ''a'' @ [CHR 0x0A] @ ''_v3''
   \<and> payloadId (last (cloneAllForLocal ([] @ [examplePayload lineFeedId 2 1 1]) [lineFeedId]
        (buildCloneTracker [lineFeedId])))
       = ''a'' @ [CHR 0x0A] @ ''_v2_v2''
   \<and> payloadId (fst (ensureClonePayloadId (examplePayload separatorId 2 1 1)
        (fst (cloneRun [(separatorId, examplePayload separatorId 1 1 0)] []))
        (snd (cloneRun [(separatorId, examplePayload separatorId 1 1 0)] []))))
       = ''a'' @ [CHR 0xE2, CHR 0x80, CHR 0xA8] @ ''_v2_v2''
   \<and> map_sum id (\<lambda>r. (datasetIds (fst r), snd r))
        (importDatasets exampleLib Clone emptyDataset [ZipSource 3])
       = Inr ([''a'' @ [CHR 0x0A] @ ''_v2''], 1)
   \<and> map_sum id (\<lambda>r. (datasetIds (fst r), snd r))
        (importDatasets exampleLib Clone
           (fst (projr (importDatasets exampleLib Clone emptyDataset [ZipSource 3])))
           [ZipSource 3])
       = Inr ([''a'' @ [CHR 0x0A] @ ''_v2'', ''a'' @ [CHR 0x0A] @ ''_v2_v2''], 2)"
  by code_simp

end
